theory Spec2Isabelle
  imports Complex_Main "HOL-Library.AList" "HOL-Library.List_Lexorder"
begin

section \<open>Conventions of the embedding\<close>

text \<open>
  The development embeds \<^verbatim>\<open>src/toy_model_w2v.ts\<close>, the word2vec toy model.

  \<^item> A JavaScript number is an exact real number (rounding of doubles is not
    modelled), \<open>NaN\<close> or one of the two infinities: the type \<open>jsnum\<close>. Counters,
    indices and ranks are \<^typ>\<open>nat\<close>; the numbers of \<open>build_vocab\<close>, where no
    divisor can be zero, are \<^typ>\<open>real\<close>.
  \<^item> A dictionary (a plain object used as a map) is an association list of its own
    keys in creation order: a new key is appended, an existing key keeps its place.
    A dictionary that maps its keys to \<open>true\<close> is the list of its own keys. The test
    \<open>k in d\<close> holds for the own keys and for the names that every object inherits
    from \<open>Object.prototype\<close> (\<open>js_in\<close> below). Under an inherited name that is no own
    key, \<open>d[k]\<close> is an object of the prototype and not an entry of \<open>d\<close>: a write to a
    property of that object leaves \<open>d\<close> as it is, and the model does not follow it
    further (for the name \<open>__proto__\<close> the object is \<open>Object.prototype\<close> itself).
  \<^item> A thrown \<open>TypeError\<close> (reading a property of \<open>undefined\<close>) is the left
    summand of a result.
\<close>

datatype error = TypeError

subsection \<open>Library functions of the language\<close>

text \<open>\<open>String.prototype.split\<close> with a separator of one character.\<close>

fun split_acc :: "char \<Rightarrow> string \<Rightarrow> string \<Rightarrow> string list" where
  "split_acc c acc [] = [rev acc]"
| "split_acc c acc (x # xs) =
     (if x = c then rev acc # split_acc c [] xs else split_acc c (x # acc) xs)"

definition split :: "char \<Rightarrow> string \<Rightarrow> string list" where
  "split c s = split_acc c [] s"

text \<open>
  \<open>Array.prototype.sort\<close> with a comparison function, as a stable insertion sort.
  The argument \<open>after a b\<close> stands for \<open>comparefn(a, b) > 0\<close>.
\<close>

fun insert_by :: "('a \<Rightarrow> 'a \<Rightarrow> bool) \<Rightarrow> 'a \<Rightarrow> 'a list \<Rightarrow> 'a list" where
  "insert_by after x [] = [x]"
| "insert_by after x (y # ys) =
     (if after x y then y # insert_by after x ys else x # y # ys)"

definition js_sort :: "('a \<Rightarrow> 'a \<Rightarrow> bool) \<Rightarrow> 'a list \<Rightarrow> 'a list" where
  "js_sort after xs = foldr (insert_by after) xs []"

text \<open>
  The order in which \<open>for (k in obj)\<close> visits the own keys of an object: the keys
  that are array indices (canonical decimal numerals below \<open>2^32 - 1\<close>) in ascending
  numeric order, then the other keys in creation order.
\<close>

definition digit_val :: "char \<Rightarrow> nat" where
  "digit_val c = of_char c - 48"

definition is_digit :: "char \<Rightarrow> bool" where
  "is_digit c = (48 \<le> (of_char c :: nat) \<and> (of_char c :: nat) \<le> 57)"

definition numeral_val :: "string \<Rightarrow> nat" where
  "numeral_val s = foldl (\<lambda>n c. 10 * n + digit_val c) 0 s"

definition is_array_index :: "string \<Rightarrow> bool" where
  "is_array_index s =
     (s \<noteq> [] \<and> list_all is_digit s \<and> (s = ''0'' \<or> hd s \<noteq> CHR ''0'')
      \<and> numeral_val s < 4294967295)"

definition own_keys :: "string list \<Rightarrow> string list" where
  "own_keys ks =
     sort_key numeral_val (filter is_array_index ks)
     @ filter (\<lambda>k. \<not> is_array_index k) ks"

text \<open>
  The property names that a plain object inherits from \<open>Object.prototype\<close>, and the test
  \<open>k in obj\<close> for an object whose own keys are \<open>ks\<close>.
\<close>

definition inherited_keys :: "string list" where
  "inherited_keys =
     [''constructor'', ''__defineGetter__'', ''__defineSetter__'', ''hasOwnProperty'',
      ''__lookupGetter__'', ''__lookupSetter__'', ''isPrototypeOf'', ''propertyIsEnumerable'',
      ''toString'', ''valueOf'', ''__proto__'', ''toLocaleString'']"

definition js_in :: "string \<Rightarrow> string list \<Rightarrow> bool" where
  "js_in k ks = (k \<in> set ks \<or> k \<in> set inherited_keys)"

subsection \<open>Numbers\<close>

text \<open>
  The arithmetic of JavaScript numbers on exact reals. A zero divisor is \<open>+0\<close>: the
  program only divides by square roots, lengths and products of counts.
\<close>

datatype jsnum = Fin real | NaN | PInf | NInf

fun js_neg :: "jsnum \<Rightarrow> jsnum" where
  "js_neg (Fin a) = Fin (- a)"
| "js_neg NaN = NaN"
| "js_neg PInf = NInf"
| "js_neg NInf = PInf"

fun js_add :: "jsnum \<Rightarrow> jsnum \<Rightarrow> jsnum" where
  "js_add (Fin a) (Fin b) = Fin (a + b)"
| "js_add NaN _ = NaN"
| "js_add _ NaN = NaN"
| "js_add PInf NInf = NaN"
| "js_add NInf PInf = NaN"
| "js_add PInf _ = PInf"
| "js_add _ PInf = PInf"
| "js_add NInf _ = NInf"
| "js_add _ NInf = NInf"

definition js_sub :: "jsnum \<Rightarrow> jsnum \<Rightarrow> jsnum" where
  "js_sub a b = js_add a (js_neg b)"

text \<open>An infinity of the sign of a non-zero real, or of the opposite sign.\<close>

definition inf_of :: "bool \<Rightarrow> real \<Rightarrow> jsnum" where
  "inf_of positive a =
     (if a = 0 then NaN else if (0 < a) = positive then PInf else NInf)"

fun js_mul :: "jsnum \<Rightarrow> jsnum \<Rightarrow> jsnum" where
  "js_mul (Fin a) (Fin b) = Fin (a * b)"
| "js_mul NaN _ = NaN"
| "js_mul _ NaN = NaN"
| "js_mul PInf (Fin b) = inf_of True b"
| "js_mul NInf (Fin b) = inf_of False b"
| "js_mul (Fin a) PInf = inf_of True a"
| "js_mul (Fin a) NInf = inf_of False a"
| "js_mul PInf PInf = PInf"
| "js_mul NInf NInf = PInf"
| "js_mul PInf NInf = NInf"
| "js_mul NInf PInf = NInf"

fun js_div :: "jsnum \<Rightarrow> jsnum \<Rightarrow> jsnum" where
  "js_div (Fin a) (Fin b) = (if b = 0 then inf_of True a else Fin (a / b))"
| "js_div NaN _ = NaN"
| "js_div _ NaN = NaN"
| "js_div (Fin a) PInf = Fin 0"
| "js_div (Fin a) NInf = Fin 0"
| "js_div PInf (Fin b) = (if 0 \<le> b then PInf else NInf)"
| "js_div NInf (Fin b) = (if 0 \<le> b then NInf else PInf)"
| "js_div PInf PInf = NaN"
| "js_div PInf NInf = NaN"
| "js_div NInf PInf = NaN"
| "js_div NInf NInf = NaN"

text \<open>\<open>Math.sqrt\<close>, \<open>Math.exp\<close> and \<open>Math.min\<close>.\<close>

fun js_sqrt :: "jsnum \<Rightarrow> jsnum" where
  "js_sqrt (Fin a) = (if a < 0 then NaN else Fin (sqrt a))"
| "js_sqrt NaN = NaN"
| "js_sqrt PInf = PInf"
| "js_sqrt NInf = NaN"

fun js_exp :: "jsnum \<Rightarrow> jsnum" where
  "js_exp (Fin a) = Fin (exp a)"
| "js_exp NaN = NaN"
| "js_exp PInf = PInf"
| "js_exp NInf = Fin 0"

text \<open>The comparisons \<open>a < b\<close> and \<open>a == b\<close>: false when an operand is \<open>NaN\<close>.\<close>

fun js_lt :: "jsnum \<Rightarrow> jsnum \<Rightarrow> bool" where
  "js_lt (Fin a) (Fin b) = (a < b)"
| "js_lt NaN _ = False"
| "js_lt _ NaN = False"
| "js_lt _ NInf = False"
| "js_lt PInf _ = False"
| "js_lt NInf _ = True"
| "js_lt _ PInf = True"

fun js_eq :: "jsnum \<Rightarrow> jsnum \<Rightarrow> bool" where
  "js_eq NaN _ = False"
| "js_eq _ NaN = False"
| "js_eq a b = (a = b)"

definition js_min :: "jsnum \<Rightarrow> jsnum \<Rightarrow> jsnum" where
  "js_min a b = (if a = NaN \<or> b = NaN then NaN else if js_lt b a then b else a)"

text \<open>
  An element of an array of numbers in arithmetic: past the end it is \<open>undefined\<close>,
  which arithmetic turns into \<open>NaN\<close>.
\<close>

definition num_at :: "jsnum list \<Rightarrow> nat \<Rightarrow> jsnum" where
  "num_at xs j = (if j < length xs then xs ! j else NaN)"

text \<open>The remainder \<open>a % n\<close> of integers, \<open>None\<close> for \<open>NaN\<close> (when \<open>n\<close> is zero).\<close>

definition js_rem :: "int \<Rightarrow> int \<Rightarrow> int option" where
  "js_rem a n = (if n = 0 then None else Some (sgn a * (\<bar>a\<bar> mod \<bar>n\<bar>)))"

section \<open>Vocabulary construction\<close>

text \<open>The constants for negative sampling.\<close>

definition power :: real where
  "power = 0.75"

definition cum_table_domain :: int where
  "cum_table_domain = 2147483647"

record VocabItem =
  idx :: nat
  count :: nat

type_synonym Vocab = "(string \<times> VocabItem) list"

text \<open>The word that is put in front of the vocabulary: the string of the one character NUL.\<close>

definition null_word :: string where
  "null_word = [CHR 0x00]"

text \<open>
  \<open>this.vocab[w].count\<close>. After the counting loop \<open>build_vocab\<close> looks up only words
  of \<open>index2word\<close> and keys of \<open>vocab\<close>, which are own keys of \<open>vocab\<close>, so the second
  branch is not taken there.
\<close>

definition vocab_count :: "Vocab \<Rightarrow> string \<Rightarrow> nat" where
  "vocab_count v w = (case map_of v w of Some it \<Rightarrow> count it | None \<Rightarrow> 0)"

text \<open>
  The body of the counting loop, for one word of one sentence. A word that is an
  inherited name gets no entry and no position in \<open>index2word\<close>, because
  \<open>word in this.vocab\<close> holds for it; the write \<open>this.vocab[word].count += 1\<close> then goes to
  an object of the prototype and leaves \<open>vocab\<close> as it is.
\<close>

definition count_word :: "Vocab \<times> string list \<Rightarrow> string \<Rightarrow> Vocab \<times> string list" where
  "count_word vi word =
     (let (vocab0, index2word0) = vi;
          (vocab1, index2word1) =
            (if \<not> js_in word (map fst vocab0)
             then (AList.update word \<lparr>idx = length index2word0, count = 0\<rparr> vocab0,
                   index2word0 @ [word])
             else (vocab0, index2word0))
      in (AList.map_entry word (\<lambda>it. it\<lparr>count := count it + 1\<rparr>) vocab1, index2word1))"

definition count_words :: "string list \<Rightarrow> Vocab \<times> string list" where
  "count_words sents =
     foldl (\<lambda>vi sentence. foldl count_word vi (split CHR '' '' sentence)) ([], []) sents"

text \<open>The body of the loop that discards rare words, for one key of \<open>vocab\<close>.\<close>

definition keep_word :: "nat \<Rightarrow> Vocab \<Rightarrow> Vocab \<times> string list \<Rightarrow> string \<Rightarrow> Vocab \<times> string list" where
  "keep_word min_cnt v vi word =
     (let (vocab_tmp, index2word_tmp) = vi in
      case map_of v word of
        None \<Rightarrow> vi
      | Some it \<Rightarrow>
          if count it \<ge> min_cnt
          then (AList.update word (it\<lparr>idx := length index2word_tmp\<rparr>) vocab_tmp,
                index2word_tmp @ [word])
          else vi)"

definition discard_rare :: "nat \<Rightarrow> Vocab \<times> string list \<Rightarrow> Vocab \<times> string list" where
  "discard_rare min_cnt vi =
     (if min_cnt > 1
      then foldl (keep_word min_cnt (fst vi)) ([], []) (own_keys (map fst (fst vi)))
      else vi)"

text \<open>
  Sorting by count, the null word in front, and the final indices.
  The comparison function is \<open>vocab[b].count - vocab[a].count\<close>.
\<close>

definition sort_words :: "Vocab \<times> string list \<Rightarrow> Vocab \<times> string list" where
  "sort_words vi =
     (let (vocab0, index2word0) = vi;
          index2word1 = js_sort (\<lambda>a b. vocab_count vocab0 a < vocab_count vocab0 b) index2word0;
          index2word2 = null_word # index2word1;
          vocab1 = AList.update (index2word2 ! 0) \<lparr>idx = 0, count = 1\<rparr> vocab0;
          vocab2 = foldl (\<lambda>v i. AList.map_entry (index2word2 ! i) (\<lambda>it. it\<lparr>idx := i\<rparr>) v)
                     vocab1 [1..<length index2word2]
      in (vocab2, index2word2))"

text \<open>The cumulative distribution table; \<open>Math.round x\<close> is \<open>\<lfloor>x + 1/2\<rfloor>\<close>.\<close>

definition train_words_pow_of :: "Vocab \<Rightarrow> string list \<Rightarrow> real" where
  "train_words_pow_of v i2w =
     foldl (\<lambda>acc i. acc + real (vocab_count v (i2w ! i)) powr power) 0 [0..<length i2w]"

definition cum_step :: "Vocab \<Rightarrow> string list \<Rightarrow> real \<Rightarrow> real \<times> int list \<Rightarrow> nat \<Rightarrow> real \<times> int list" where
  "cum_step v i2w train_words_pow ct i =
     (let (cumultative, tbl) = ct;
          cumultative1 = cumultative + real (vocab_count v (i2w ! i)) powr power / train_words_pow
      in (cumultative1, tbl[i := round (cumultative1 * real_of_int cum_table_domain)]))"

definition make_cum_table :: "Vocab \<Rightarrow> string list \<Rightarrow> int list" where
  "make_cum_table v i2w =
     (let vocab_size = length i2w;
          train_words_pow = train_words_pow_of v i2w
      in snd (foldl (cum_step v i2w train_words_pow) (0, replicate vocab_size 0) [0..<vocab_size]))"

text \<open>What \<open>build_vocab\<close> leaves in the model and in its state.\<close>

record VocabResult =
  sentences :: "string list"
  vocab :: Vocab
  index2word :: "string list"
  cum_table :: "int list"
  num_sentences :: nat
  vocab_size :: nat
  corpus_size :: nat

definition build_vocab :: "nat \<Rightarrow> string \<Rightarrow> VocabResult" where
  "build_vocab min_cnt corpus =
     (let sents = split (CHR 0x0A) corpus;
          (vocab1, index2word1) = sort_words (discard_rare min_cnt (count_words sents));
          total_words = foldl (\<lambda>t w. t + vocab_count vocab1 w) 0 (own_keys (map fst vocab1))
      in \<lparr>sentences = sents, vocab = vocab1, index2word = index2word1,
          cum_table = make_cum_table vocab1 index2word1,
          num_sentences = length sents, vocab_size = length index2word1,
          corpus_size = total_words\<rparr>)"

text \<open>The tokens of a corpus: the words of its sentences, in order.\<close>

definition tokens :: "string \<Rightarrow> string list" where
  "tokens corpus = concat (map (split CHR '' '') (split (CHR 0x0A) corpus))"

text \<open>The weight of the word at a position of \<open>index2word\<close> in the sampling distribution.\<close>

definition weight :: "Vocab \<Rightarrow> string list \<Rightarrow> nat \<Rightarrow> real" where
  "weight v i2w i = real (vocab_count v (i2w ! i)) powr power"

section \<open>Training\<close>

subsection \<open>The model\<close>

record Word2vecConfig =
  hidden_size :: nat
  alpha :: real
  window :: nat
  min_count :: nat
  min_alpha :: real
  sg :: bool
  negative :: nat
  cbow_mean :: bool
  iter :: nat

text \<open>An entry of \<open>rank_history\<close> and a \<open>QueryOutRecord\<close>; a field that may be absent is an option.\<close>

record RankEntry =
  hist_rank :: nat
  iteration :: nat

record QueryOutRecord =
  query :: string
  status :: string
  rank :: "nat option"
  rank_history :: "RankEntry list option"

text \<open>
  The class \<open>Word2vec\<close> with the fields of its \<open>state\<close>: the fields that \<open>build_vocab\<close>
  writes, and the others. \<open>state_sentences\<close> is \<open>state.sentences\<close>, the index of the next
  sentence. The dictionaries \<open>queries_watched\<close> and \<open>queries_ignored\<close> are sets of keys,
  kept as the lists of their own keys in the order of \<open>Object.keys\<close>. \<open>get_random_float\<close> belongs to a module that is not
  part of the sources: \<open>rnd\<close> is the sequence of the numbers it returns and \<open>rnd_pos\<close>
  counts the calls made so far.
\<close>

record Word2vec = VocabResult +
  config :: Word2vecConfig
  state_sentences :: nat
  epochs :: nat
  learning_rate :: jsnum
  instances :: nat
  syn0 :: "jsnum list list"
  syn1 :: "jsnum list list"
  query_in :: "string list"
  qi_key :: string
  queries_watched :: "string list"
  queries_ignored :: "string list"
  qo_map :: "string \<rightharpoonup> (string \<rightharpoonup> QueryOutRecord)"
  query_out_records :: "QueryOutRecord list"
  qi_vec :: "jsnum list"
  count_instances_watched :: nat
  rnd :: "nat \<Rightarrow> real"
  rnd_pos :: nat

text \<open>A loop over a list whose body may throw.\<close>

fun fold_err :: "('s \<Rightarrow> 'a \<Rightarrow> error + 's) \<Rightarrow> 's \<Rightarrow> 'a list \<Rightarrow> error + 's" where
  "fold_err f s [] = Inr s"
| "fold_err f s (x # xs) = (case f s x of Inl e \<Rightarrow> Inl e | Inr s1 \<Rightarrow> fold_err f s1 xs)"

subsection \<open>Vectors\<close>

text \<open>
  The loops over \<open>j < hidden_size\<close>: the dot product, \<open>xs[j] += g * ys[j]\<close>,
  \<open>xs[j] += ys[j]\<close> and \<open>xs[j] /= n\<close>. The arrays of each loop are different objects.
\<close>

definition dot :: "nat \<Rightarrow> jsnum list \<Rightarrow> jsnum list \<Rightarrow> jsnum" where
  "dot hs l1 l2 = foldl (\<lambda>f j. js_add f (js_mul (num_at l1 j) (num_at l2 j))) (Fin 0) [0..<hs]"

definition add_scaled :: "nat \<Rightarrow> jsnum list \<Rightarrow> jsnum \<Rightarrow> jsnum list \<Rightarrow> jsnum list" where
  "add_scaled hs xs g ys =
     map (\<lambda>j. js_add (num_at xs j) (js_mul g (num_at ys j))) [0..<hs] @ drop hs xs"

definition add_vec :: "nat \<Rightarrow> jsnum list \<Rightarrow> jsnum list \<Rightarrow> jsnum list" where
  "add_vec hs xs ys = map (\<lambda>j. js_add (num_at xs j) (num_at ys j)) [0..<hs] @ drop hs xs"

definition div_vec :: "nat \<Rightarrow> jsnum list \<Rightarrow> jsnum \<Rightarrow> jsnum list" where
  "div_vec hs xs n = map (\<lambda>j. js_div (num_at xs j) n) [0..<hs] @ drop hs xs"

text \<open>
  A row \<open>mat[i]\<close> that the loops over \<open>j < hidden_size\<close> read: for a missing row the
  first read throws, unless the loops are empty.
\<close>

definition get_row :: "nat \<Rightarrow> jsnum list list \<Rightarrow> nat \<Rightarrow> error + jsnum list" where
  "get_row hs mat i =
     (if i < length mat then Inr (mat ! i) else if hs = 0 then Inr [] else Inl TypeError)"

subsection \<open>The binary search\<close>

text \<open>The loop of \<open>bSearch\<close>; \<open>lo\<close> and \<open>hi\<close> are its variables \<open>bot\<close> and \<open>top\<close>.\<close>

function bSearch_loop :: "int list \<Rightarrow> real \<Rightarrow> nat \<Rightarrow> nat \<Rightarrow> nat" where
  "bSearch_loop xs x lo hi =
     (if lo < hi
      then (let mid = (lo + hi) div 2;
                c = real_of_int (xs ! mid) - x
            in if c = 0 then mid
               else bSearch_loop xs x (if c < 0 then mid + 1 else lo) (if 0 < c then mid else hi))
      else lo)"
  by pat_completeness auto
termination
  by (relation "measure (\<lambda>(xs, x, lo, hi). hi - lo)") auto

declare bSearch_loop.simps [simp del]

definition bSearch :: "int list \<Rightarrow> real \<Rightarrow> nat" where
  "bSearch xs x =
     (if length xs = 0 then 0
      else if x > real_of_int (xs ! (length xs - 1)) then length xs
      else if x < real_of_int (xs ! 0) then 0
      else bSearch_loop xs x 0 (length xs))"

subsection \<open>Negative sampling\<close>

text \<open>
  The draw of a negative target, for \<open>d > 0\<close>: the lookup in the cumulative table, and
  the second draw when the lookup gives index 0. The result is the target (\<open>None\<close> for
  \<open>NaN\<close>) and the number of calls of \<open>get_random_float\<close> made so far.
\<close>

definition draw_negative :: "'a Word2vec_scheme \<Rightarrow> nat \<Rightarrow> nat option \<times> nat" where
  "draw_negative m pos =
     (let random = rnd m pos * real_of_int cum_table_domain;
          target = bSearch (cum_table m) random
      in if target = 0
         then (map_option (\<lambda>r. nat (r + 1))
                 (js_rem \<lfloor>rnd m (pos + 1) * real_of_int cum_table_domain\<rfloor> (int (vocab_size m) - 1)),
               pos + 2)
         else (Some target, pos + 1))"

text \<open>
  The update for one target, with its label: the part of the loop body after the choice
  of the target. It works on \<open>syn1\<close> and \<open>neu1e\<close>.
\<close>

definition update_pair ::
  "'a Word2vec_scheme \<Rightarrow> jsnum list \<Rightarrow> nat option \<Rightarrow> real \<Rightarrow> jsnum list list \<times> jsnum list
     \<Rightarrow> error + (jsnum list list \<times> jsnum list)" where
  "update_pair m l1 target label s =
     (let hs = hidden_size (config m); (syn1v, neu1e) = s in
      case target of
        None \<Rightarrow> if hs = 0 then Inr s else Inl TypeError
      | Some t \<Rightarrow>
          (case get_row hs syn1v t of
             Inl e \<Rightarrow> Inl e
           | Inr l2 \<Rightarrow>
               let f = dot hs l1 l2;
                   g = js_mul (js_sub (Fin label)
                                 (js_div (Fin 1) (js_add (Fin 1) (js_exp (js_neg f)))))
                         (learning_rate m);
                   neu1e1 = add_scaled hs neu1e g l2;
                   l21 = add_scaled hs l2 g l1
               in Inr (syn1v[t := l21], neu1e1)))"

text \<open>
  The loop over \<open>d\<close> of \<open>train_sg_pair\<close> and of \<open>train_cbow_pair\<close> (the two functions hold
  the same loop). Its state is \<open>syn1\<close>, \<open>neu1e\<close> and the number of random draws.
\<close>

fun neg_loop ::
  "'a Word2vec_scheme \<Rightarrow> nat \<Rightarrow> jsnum list \<Rightarrow> nat list
     \<Rightarrow> (jsnum list list \<times> jsnum list) \<times> nat
     \<Rightarrow> error + ((jsnum list list \<times> jsnum list) \<times> nat)" where
  "neg_loop m w_idx l1 [] sp = Inr sp"
| "neg_loop m w_idx l1 (d # ds) (s, pos) =
     (if d = 0
      then (case update_pair m l1 (Some w_idx) 1 s of
              Inl e \<Rightarrow> Inl e
            | Inr s1 \<Rightarrow> neg_loop m w_idx l1 ds (s1, pos))
      else (let (target, pos1) = draw_negative m pos in
            if target = Some w_idx then neg_loop m w_idx l1 ds (s, pos1)
            else (case update_pair m l1 target 0 s of
                    Inl e \<Rightarrow> Inl e
                  | Inr s1 \<Rightarrow> neg_loop m w_idx l1 ds (s1, pos1))))"

text \<open>
  The updates that the loop makes, in order, as pairs of a target and its label, and the
  number of random draws after the loop. Lemma \<open>neg_loop_updates\<close> shows that the loop
  is the sequence of these updates.
\<close>

fun loop_updates :: "'a Word2vec_scheme \<Rightarrow> nat \<Rightarrow> nat list \<Rightarrow> nat \<Rightarrow> (nat option \<times> real) list" where
  "loop_updates m w_idx [] pos = []"
| "loop_updates m w_idx (d # ds) pos =
     (if d = 0 then (Some w_idx, 1) # loop_updates m w_idx ds pos
      else (let (target, pos1) = draw_negative m pos in
            if target = Some w_idx then loop_updates m w_idx ds pos1
            else (target, 0) # loop_updates m w_idx ds pos1))"

fun loop_draws :: "'a Word2vec_scheme \<Rightarrow> nat list \<Rightarrow> nat \<Rightarrow> nat" where
  "loop_draws m [] pos = pos"
| "loop_draws m (d # ds) pos =
     (if d = 0 then loop_draws m ds pos else loop_draws m ds (snd (draw_negative m pos)))"

text \<open>A matrix of \<open>hidden_size\<close> columns whose entries are finite numbers.\<close>

fun is_fin :: "jsnum \<Rightarrow> bool" where
  "is_fin (Fin a) = True"
| "is_fin _ = False"

definition finite_matrix :: "nat \<Rightarrow> jsnum list list \<Rightarrow> bool" where
  "finite_matrix hs mat = list_all (\<lambda>row. length row = hs \<and> list_all is_fin row) mat"

definition train_sg_pair :: "Word2vec \<Rightarrow> nat \<Rightarrow> nat \<Rightarrow> error + Word2vec" where
  "train_sg_pair m w_idx context_idx =
     (let hs = hidden_size (config m) in
      case get_row hs (syn0 m) context_idx of
        Inl e \<Rightarrow> Inl e
      | Inr l1 \<Rightarrow>
          (case neg_loop m w_idx l1 [0..<negative (config m) + 1]
                  ((syn1 m, replicate hs (Fin 0)), rnd_pos m) of
             Inl e \<Rightarrow> Inl e
           | Inr ((syn1v, neu1e), pos) \<Rightarrow>
               Inr (m\<lparr>syn1 := syn1v, rnd_pos := pos,
                      syn0 := (syn0 m)[context_idx := add_vec hs l1 neu1e]\<rparr>)))"

definition train_cbow_pair :: "Word2vec \<Rightarrow> nat \<Rightarrow> nat list \<Rightarrow> jsnum list \<Rightarrow> error + Word2vec" where
  "train_cbow_pair m w_idx context_idxs l1 =
     (let hs = hidden_size (config m) in
      case neg_loop m w_idx l1 [0..<negative (config m) + 1]
             ((syn1 m, replicate hs (Fin 0)), rnd_pos m) of
        Inl e \<Rightarrow> Inl e
      | Inr ((syn1v, neu1e), pos) \<Rightarrow>
          (case fold_err (\<lambda>mat a. case get_row hs mat a of
                                    Inl e \<Rightarrow> Inl e
                                  | Inr row \<Rightarrow> Inr (mat[a := add_vec hs row neu1e]))
                  (syn0 m) context_idxs of
             Inl e \<Rightarrow> Inl e
           | Inr syn0v \<Rightarrow> Inr (m\<lparr>syn1 := syn1v, rnd_pos := pos, syn0 := syn0v\<rparr>)))"

subsection \<open>A sentence\<close>

text \<open>
  \<open>this.vocab[w].idx\<close>, used as the number of a row of \<open>syn0\<close> or \<open>syn1\<close>. The lookup
  throws when \<open>w\<close> is neither an own key nor an inherited name. For an inherited name that
  is no own key the index is \<open>undefined\<close>; there is no row \<open>undefined\<close>, and the first read
  of an entry of that row throws (the training step and the query read one whenever
  \<open>hidden_size\<close> is positive). The model raises the \<open>TypeError\<close> at the lookup in both
  cases.
\<close>

definition vocab_idx :: "Vocab \<Rightarrow> string \<Rightarrow> error + nat" where
  "vocab_idx v w = (case map_of v w of None \<Rightarrow> Inl TypeError | Some it \<Rightarrow> Inr (idx it))"

text \<open>
  The reduced window of the word at \<open>pos\<close>: \<open>start\<close> and the slice of \<open>words\<close>. The
  random number is in \<open>[0, 1)\<close>, so \<open>reduced_window\<close> is at most \<open>window\<close> and no bound of
  the slice is negative.
\<close>

definition reduced_window_of :: "'a Word2vec_scheme \<Rightarrow> nat" where
  "reduced_window_of m = nat (round (rnd m (rnd_pos m) * real (window (config m))))"

definition window_start :: "'a Word2vec_scheme \<Rightarrow> nat \<Rightarrow> nat" where
  "window_start m pos = pos + reduced_window_of m - window (config m)"

definition words_reduced_window_of :: "'a Word2vec_scheme \<Rightarrow> string list \<Rightarrow> nat \<Rightarrow> string list" where
  "words_reduced_window_of m words pos =
     take (pos + window (config m) + 1 - reduced_window_of m - window_start m pos)
       (drop (window_start m pos) words)"

text \<open>The CBOW branch: the list \<open>word2_indices\<close> and the hidden vector \<open>l1\<close>.\<close>

definition word2_indices_of :: "'a Word2vec_scheme \<Rightarrow> string list \<Rightarrow> nat \<Rightarrow> nat list" where
  "word2_indices_of m words pos =
     filter (\<lambda>pos2. pos2 \<noteq> pos)
       (map (\<lambda>i. i + window_start m pos) [0..<length (words_reduced_window_of m words pos)])"

definition cbow_l1 :: "'a Word2vec_scheme \<Rightarrow> nat list \<Rightarrow> error + jsnum list" where
  "cbow_l1 m word2_indices =
     (let hs = hidden_size (config m) in
      case fold_err (\<lambda>l1 i. case get_row hs (syn0 m) i of
                              Inl e \<Rightarrow> Inl e
                            | Inr row \<Rightarrow> Inr (add_vec hs l1 row))
             (replicate hs (Fin 0)) word2_indices of
        Inl e \<Rightarrow> Inl e
      | Inr l1 \<Rightarrow>
          Inr (if cbow_mean (config m) \<and> length word2_indices > 0
               then div_vec hs l1 (Fin (real (length word2_indices)))
               else l1))"

text \<open>The body of the loop over the words of the sentence.\<close>

definition train_word :: "string list \<Rightarrow> Word2vec \<Rightarrow> nat \<Rightarrow> error + Word2vec" where
  "train_word words m pos =
     (let word = words ! pos;
          start = window_start m pos;
          words_reduced_window = words_reduced_window_of m words pos;
          m0 = m\<lparr>rnd_pos := rnd_pos m + 1\<rparr>;
          trained =
            (if sg (config m)
             then fold_err (\<lambda>m1 i.
                     if i + start \<noteq> pos
                     then (case vocab_idx (vocab m1) word of
                             Inl e \<Rightarrow> Inl e
                           | Inr w_idx \<Rightarrow>
                               (case vocab_idx (vocab m1) (words_reduced_window ! i) of
                                  Inl e \<Rightarrow> Inl e
                                | Inr context_idx \<Rightarrow> train_sg_pair m1 w_idx context_idx))
                     else Inr m1)
                    m0 [0..<length words_reduced_window]
             else (case cbow_l1 m0 (word2_indices_of m words pos) of
                     Inl e \<Rightarrow> Inl e
                   | Inr l1 \<Rightarrow>
                       (case vocab_idx (vocab m0) word of
                          Inl e \<Rightarrow> Inl e
                        | Inr w_idx \<Rightarrow>
                            train_cbow_pair m0 w_idx (word2_indices_of m words pos) l1)))
      in case trained of
           Inl e \<Rightarrow> Inl e
         | Inr m2 \<Rightarrow>
             Inr (m2\<lparr>instances := instances m2 + 1,
                     count_instances_watched :=
                       (if js_in word (queries_watched m2)
                        then count_instances_watched m2 + 1
                        else count_instances_watched m2)\<rparr>))"

definition train_sentence :: "Word2vec \<Rightarrow> error + Word2vec" where
  "train_sentence m =
     (if state_sentences m < length (sentences m)
      then (let sentence = sentences m ! state_sentences m;
                words0 = split CHR '' '' sentence;
                progress = js_min (Fin 1)
                             (js_div (Fin (real (instances m)))
                                (Fin (real (corpus_size m * iter (config m)))));
                m1 = m\<lparr>learning_rate :=
                         js_sub (Fin (alpha (config m)))
                           (js_mul (js_sub (Fin (alpha (config m))) (Fin (min_alpha (config m))))
                              progress)\<rparr>;
                words = filter (\<lambda>w. js_in w (map fst (vocab m1))) words0
            in case fold_err (train_word words) m1 [0..<length words] of
                 Inl e \<Rightarrow> Inl e
               | Inr m2 \<Rightarrow>
                   (let m3 = m2\<lparr>state_sentences := state_sentences m2 + 1\<rparr>
                    in Inr (if state_sentences m3 \<ge> num_sentences m3
                            then m3\<lparr>state_sentences := 0, epochs := epochs m3 + 1\<rparr>
                            else m3)))
      else Inl TypeError)"

subsection \<open>Preconditions and an example\<close>

text \<open>
  The construction invariant of the cumulative table that the draws rely on, and the
  contract of \<open>get_random_float\<close>: every number it returns is in \<open>[0, 1)\<close>.
\<close>

definition table_ok :: "'a Word2vec_scheme \<Rightarrow> bool" where
  "table_ok m = (cum_table m \<noteq> [] \<and> last (cum_table m) = cum_table_domain
                 \<and> length (cum_table m) = vocab_size m)"

definition rnd_ok :: "'a Word2vec_scheme \<Rightarrow> bool" where
  "rnd_ok m = (\<forall>n. 0 \<le> rnd m n \<and> rnd m n < 1)"

text \<open>
  A model of the corpus \<open>a b\<close> with \<open>min_count = 1\<close>, \<open>hidden_size = 1\<close>, \<open>window = 1\<close>, CBOW,
  two negative samples, and a random source that always returns 0. Its vocabulary and its
  table are those of \<open>build_vocab\<close> (lemmas \<open>toy_vocab\<close> and \<open>toy_table\<close>).
\<close>

definition toy :: Word2vec where
  "toy = \<lparr>sentences = [''a b''],
          vocab = [(''a'', \<lparr>idx = 1, count = 1\<rparr>), (''b'', \<lparr>idx = 2, count = 1\<rparr>),
                   (null_word, \<lparr>idx = 0, count = 1\<rparr>)],
          index2word = [null_word, ''a'', ''b''],
          cum_table = [715827882, 1431655765, 2147483647],
          num_sentences = 1, vocab_size = 3, corpus_size = 3,
          config = \<lparr>hidden_size = 1, alpha = 0.1, window = 1, min_count = 1, min_alpha = 0.01,
                    sg = False, negative = 2, cbow_mean = True, iter = 20\<rparr>,
          state_sentences = 0, epochs = 0, learning_rate = Fin 1, instances = 0,
          syn0 = [[Fin 0], [Fin 0], [Fin 1]],
          syn1 = [[Fin 0], [Fin 1], [Fin 1]],
          query_in = [], qi_key = [], queries_watched = [], queries_ignored = [],
          qo_map = Map.empty, query_out_records = [], qi_vec = [Fin 0],
          count_instances_watched = 0, rnd = (\<lambda>_. 0), rnd_pos = 0\<rparr>"

section \<open>The query\<close>

text \<open>
  \<open>compute_query_result\<close> relies on two facts about the object: \<open>state.vocab_size\<close> is
  the length of \<open>index2word\<close> (\<open>build_vocab\<close> sets it so, and nothing else writes either),
  and the cached arrays \<open>scores\<close> and \<open>qi_vec\<close> have \<open>vocab_size\<close> and \<open>hidden_size\<close> entries
  (\<open>init_model\<close> makes them so). The model reads \<open>index2word\<close> below \<open>vocab_size\<close> only, and
  \<open>scores\<close> is the list of the scores of one call.
\<close>

subsection \<open>The query vector\<close>

text \<open>A query term: whether it starts with \<open>-\<close>, and the word.\<close>

definition strip_minus :: "string \<Rightarrow> bool \<times> string" where
  "strip_minus q = (if take 1 q = ''-'' then (True, drop 1 q) else (False, q))"

definition sub_vec :: "nat \<Rightarrow> jsnum list \<Rightarrow> jsnum list \<Rightarrow> jsnum list" where
  "sub_vec hs xs ys = map (\<lambda>j. js_sub (num_at xs j) (num_at ys j)) [0..<hs] @ drop hs xs"

text \<open>The body of the loop over \<open>query_in\<close>; its state is \<open>qi_vec\<close> and the keys of \<open>q_idx_set\<close>.\<close>

definition add_query_term ::
  "'a Word2vec_scheme \<Rightarrow> jsnum list \<times> nat list \<Rightarrow> string \<Rightarrow> error + (jsnum list \<times> nat list)" where
  "add_query_term m s q =
     (let (qv, q_idx_set) = s;
          (minus, word) = strip_minus q;
          hs = hidden_size (config m)
      in case vocab_idx (vocab m) word of
           Inl e \<Rightarrow> Inl e
         | Inr qidx \<Rightarrow>
             (case get_row hs (syn0 m) qidx of
                Inl e \<Rightarrow> Inl e
              | Inr row \<Rightarrow>
                  Inr (if minus then sub_vec hs qv row else add_vec hs qv row,
                       q_idx_set @ [qidx])))"

definition query_terms :: "'a Word2vec_scheme \<Rightarrow> error + (jsnum list \<times> nat list)" where
  "query_terms m =
     fold_err (add_query_term m)
       (map (\<lambda>j. Fin 0) [0..<hidden_size (config m)] @ drop (hidden_size (config m)) (qi_vec m), [])
       (query_in m)"

text \<open>The normalisation of \<open>qi_vec\<close>: every entry is divided by the root of the sum of squares.\<close>

definition normalize :: "nat \<Rightarrow> jsnum list \<Rightarrow> jsnum list" where
  "normalize hs qv =
     (let l2 = dot hs qv qv;
          l2_sqrt = js_sqrt l2
      in div_vec hs qv l2_sqrt)"

subsection \<open>Scores and ranks\<close>

definition score_of :: "'a Word2vec_scheme \<Rightarrow> jsnum list \<Rightarrow> nat list \<Rightarrow> nat \<Rightarrow> error + jsnum" where
  "score_of m qv q_idx_set i =
     (if i \<in> set q_idx_set then Inr (Fin 0)
      else (case get_row (hidden_size (config m)) (syn0 m) i of
              Inl e \<Rightarrow> Inl e
            | Inr row \<Rightarrow>
                (let prod = dot (hidden_size (config m)) qv row;
                     l2 = dot (hidden_size (config m)) row row;
                     l2_sqrt = js_sqrt l2
                 in Inr (if js_eq l2 (Fin 0) then Fin 0 else js_div prod l2_sqrt))))"

definition all_scores :: "'a Word2vec_scheme \<Rightarrow> jsnum list \<Rightarrow> nat list \<Rightarrow> error + jsnum list" where
  "all_scores m qv q_idx_set =
     fold_err (\<lambda>scores i. case score_of m qv q_idx_set i of
                            Inl e \<Rightarrow> Inl e
                          | Inr s \<Rightarrow> Inr (scores @ [s]))
       [] [0..<vocab_size m]"

text \<open>
  \<open>item_scores\<close>, sorted with the comparison function \<open>b.score - a.score\<close>. An item is
  the pair of its \<open>idx\<close> and its \<open>score\<close>; its \<open>rank\<close> is its position in the sorted list.
\<close>

definition sort_items :: "jsnum list \<Rightarrow> (nat \<times> jsnum) list" where
  "sort_items scores =
     js_sort (\<lambda>a b. js_lt (Fin 0) (js_sub (snd b) (snd a))) (zip [0..<length scores] scores)"

definition rank_lookup_of :: "'a Word2vec_scheme \<Rightarrow> (nat \<times> jsnum) list \<Rightarrow> (string \<rightharpoonup> nat)" where
  "rank_lookup_of m item_scores =
     foldl (\<lambda>rank_lookup r.
              let word = index2word m ! fst (item_scores ! r)
              in if js_in word (queries_watched m) then rank_lookup(word \<mapsto> r) else rank_lookup)
       Map.empty [0..<length item_scores]"

text \<open>
  The ranks of the watched words, in the order of the keys of \<open>queries_watched\<close>. The
  test \<open>word in rank_lookup\<close> also holds for an inherited name that has no rank: the value
  pushed is then an object of the prototype, \<open>item_scores\<close> has no element at it, and the
  first filter of \<open>ranks_to_show\<close> throws at it. The index of a word that is only an
  inherited name of \<open>vocab\<close> is \<open>undefined\<close>, which is no key of \<open>q_idx_set\<close>.
\<close>

definition watched_ranks ::
  "'a Word2vec_scheme \<Rightarrow> (string \<rightharpoonup> nat) \<Rightarrow> nat list \<Rightarrow> error + nat list" where
  "watched_ranks m rank_lookup q_idx_set =
     fold_err (\<lambda>ranks word.
                 case rank_lookup word of
                   None \<Rightarrow>
                     if word \<in> set inherited_keys
                     then (case map_of (vocab m) word of
                             None \<Rightarrow> Inl TypeError
                           | Some it \<Rightarrow>
                               if idx it \<in> set q_idx_set then Inr ranks else Inl TypeError)
                     else Inr ranks
                 | Some r \<Rightarrow>
                     (case map_of (vocab m) word of
                        None \<Rightarrow>
                          if word \<in> set inherited_keys then Inr (ranks @ [r]) else Inl TypeError
                      | Some it \<Rightarrow> Inr (if idx it \<in> set q_idx_set then ranks else ranks @ [r])))
       [] (queries_watched m)"

text \<open>\<open>uniq_fast\<close>: the first occurrence of every element, in order.\<close>

fun uniq_from :: "'a list \<Rightarrow> 'a list \<Rightarrow> 'a list" where
  "uniq_from seen [] = []"
| "uniq_from seen (x # xs) =
     (if x \<in> set seen then uniq_from seen xs else x # uniq_from (x # seen) xs)"

definition uniq_fast :: "'a list \<Rightarrow> 'a list" where
  "uniq_fast a = uniq_from [] a"

text \<open>
  \<open>Array.prototype.sort\<close> without a comparison function, on numbers: the order of their
  decimal strings, that is, the lexicographic order of the lists of their digits.
\<close>

fun decimal :: "nat \<Rightarrow> nat list" where
  "decimal n = (if n < 10 then [n] else decimal (n div 10) @ [n mod 10])"

declare decimal.simps [simp del]

definition sort_default :: "nat list \<Rightarrow> nat list" where
  "sort_default xs = js_sort (\<lambda>a b. decimal b < decimal a) xs"

definition ranks_to_show_of ::
  "'a Word2vec_scheme \<Rightarrow> (nat \<times> jsnum) list \<Rightarrow> nat list \<Rightarrow> nat list \<Rightarrow> error + nat list" where
  "ranks_to_show_of m item_scores q_idx_set wr =
     (let ranks0 = uniq_fast ([0..<10] @ wr) in
      if list_all (\<lambda>r. r < length item_scores) ranks0
      then Inr (sort_default
                  (filter (\<lambda>r. fst (item_scores ! r) \<notin> set q_idx_set)
                     (filter (\<lambda>r. \<not> js_in (index2word m ! fst (item_scores ! r)) (queries_ignored m))
                        ranks0)))
      else Inl TypeError)"

subsection \<open>Records and their history\<close>

definition update_history :: "RankEntry list option \<Rightarrow> nat \<Rightarrow> nat \<Rightarrow> RankEntry list" where
  "update_history rh r iterations =
     (let h = (case rh of None \<Rightarrow> [] | Some h0 \<Rightarrow> h0) in
      if length h \<ge> 1 \<and> iteration (last h) = iterations
      then butlast h @ [(last h)\<lparr>hist_rank := r\<rparr>]
      else h @ [\<lparr>hist_rank = r, iteration = iterations\<rparr>])"

text \<open>
  The body of the loop over \<open>ranks_to_show\<close>. Its state is \<open>qo_lookup\<close> and the list
  \<open>query_out_records\<close>, which holds references to records of \<open>qo_lookup\<close>: their keys.
  The word of a rank that reaches the loop is no inherited name, because the filter on
  \<open>queries_ignored\<close> has removed those; so \<open>word in qo_lookup\<close> is the test for an own key.
\<close>

definition record_rank ::
  "'a Word2vec_scheme \<Rightarrow> (nat \<times> jsnum) list \<Rightarrow> (string \<rightharpoonup> QueryOutRecord) \<times> string list \<Rightarrow> nat
     \<Rightarrow> (string \<rightharpoonup> QueryOutRecord) \<times> string list" where
  "record_rank m item_scores s r =
     (let (qo_lookup, out) = s;
          word = index2word m ! fst (item_scores ! r);
          rec0 = (case qo_lookup word of
                    None \<Rightarrow> \<lparr>query = word, status = ''NORMAL'', rank = None, rank_history = None\<rparr>
                  | Some rec \<Rightarrow> rec);
          rec1 = rec0\<lparr>rank := Some r,
                      rank_history := Some (update_history (rank_history rec0) r (instances m))\<rparr>
      in (qo_lookup(word \<mapsto> rec1), out @ [word]))"

text \<open>The comparison function \<open>a.rank - b.rank\<close> of the last sort.\<close>

definition rank_after :: "QueryOutRecord \<Rightarrow> QueryOutRecord \<Rightarrow> bool" where
  "rank_after a b = (case (rank a, rank b) of (Some x, Some y) \<Rightarrow> y < x | _ \<Rightarrow> False)"

definition compute_query_result :: "Word2vec \<Rightarrow> error + Word2vec" where
  "compute_query_result m =
     (if length (query_in m) = 0 then Inr (m\<lparr>query_out_records := []\<rparr>)
      else
        (case query_terms m of
           Inl e \<Rightarrow> Inl e
         | Inr (qv0, q_idx_set) \<Rightarrow>
             (let qv = normalize (hidden_size (config m)) qv0 in
              case all_scores m qv q_idx_set of
                Inl e \<Rightarrow> Inl e
              | Inr scores \<Rightarrow>
                  (let item_scores = sort_items scores in
                   case watched_ranks m (rank_lookup_of m item_scores) q_idx_set of
                     Inl e \<Rightarrow> Inl e
                   | Inr wr \<Rightarrow>
                       (case ranks_to_show_of m item_scores q_idx_set wr of
                          Inl e \<Rightarrow> Inl e
                        | Inr ranks_to_show \<Rightarrow>
                            if ranks_to_show = []
                            then Inr (m\<lparr>query_out_records := [], qi_vec := qv\<rparr>)
                            else (case qo_map m (qi_key m) of
                                    None \<Rightarrow> Inl TypeError
                                  | Some qo_lookup \<Rightarrow>
                                      (let (qo1, out) =
                                             foldl (record_rank m item_scores) (qo_lookup, [])
                                               ranks_to_show
                                       in Inr (m\<lparr>qo_map := (qo_map m)(qi_key m \<mapsto> qo1),
                                                 query_out_records :=
                                                   js_sort rank_after (List.map_filter qo1 out),
                                                 qi_vec := qv\<rparr>))))))))"

subsection \<open>Notions for the statements\<close>


definition rank_val :: "QueryOutRecord \<Rightarrow> nat" where
  "rank_val rec = (case rank rec of Some r \<Rightarrow> r | None \<Rightarrow> 0)"

text \<open>
  The invariant of a history at the instance count \<open>it\<close>: the iteration numbers increase
  strictly, and none is beyond \<open>it\<close>.
\<close>

definition history_ok :: "nat \<Rightarrow> QueryOutRecord \<Rightarrow> bool" where
  "history_ok it rec =
     (case rank_history rec of
        None \<Rightarrow> True
      | Some h \<Rightarrow> sorted_wrt (<) (map iteration h) \<and> list_all (\<lambda>e. iteration e \<le> it) h)"

subsection \<open>Initialisation of the model\<close>

text \<open>
  \<open>init_model\<close>: new weights, the cached query vector, and the counters of the state set
  to 0. It leaves \<open>qo_map\<close> as it is. The function \<open>get_random_init_weight\<close> is not part of
  the sources: \<open>w k\<close> is the result of its call number \<open>k\<close> in this run of \<open>init_model\<close>
  (the calls alternate between a row of \<open>syn0\<close> and a row of \<open>syn1\<close>). The cached array
  \<open>scores\<close> and the field \<open>num_possible_outputs\<close> are not kept in the record of the model.
\<close>

definition init_model :: "(nat \<Rightarrow> jsnum) \<Rightarrow> Word2vec \<Rightarrow> Word2vec" where
  "init_model w m =
     (let vs = vocab_size m;
          hs = hidden_size (config m)
      in m\<lparr>syn0 := map (\<lambda>i. map (\<lambda>j. w (2 * (i * hs + j))) [0..<hs]) [0..<vs],
            syn1 := map (\<lambda>i. map (\<lambda>j. w (2 * (i * hs + j) + 1)) [0..<hs]) [0..<vs],
            qi_vec := map (\<lambda>j. Fin 0) [0..<hs],
            instances := 0, epochs := 0, state_sentences := 0\<rparr>)"

subsection \<open>Example models\<close>

text \<open>
  A model with ten words, \<open>hidden_size = 1\<close>, the query \<open>a\<close>, the watched word \<open>b\<close>, and a
  record of the word \<open>c\<close> from an earlier call at the same instance count.
\<close>

definition toy10 :: Word2vec where
  "toy10 = \<lparr>sentences = [''a b c d e f g h i''],
          vocab = [(''a'', \<lparr>idx = 1, count = 1\<rparr>), (''b'', \<lparr>idx = 2, count = 1\<rparr>),
                   (''c'', \<lparr>idx = 3, count = 1\<rparr>), (''d'', \<lparr>idx = 4, count = 1\<rparr>),
                   (''e'', \<lparr>idx = 5, count = 1\<rparr>), (''f'', \<lparr>idx = 6, count = 1\<rparr>),
                   (''g'', \<lparr>idx = 7, count = 1\<rparr>), (''h'', \<lparr>idx = 8, count = 1\<rparr>),
                   (''i'', \<lparr>idx = 9, count = 1\<rparr>), (null_word, \<lparr>idx = 0, count = 1\<rparr>)],
          index2word = [null_word, ''a'', ''b'', ''c'', ''d'', ''e'', ''f'', ''g'', ''h'', ''i''],
          cum_table = [214748365, 429496729, 644245094, 858993459, 1073741824, 1288490188,
                       1503238553, 1717986918, 1932735282, 2147483647],
          num_sentences = 1, vocab_size = 10, corpus_size = 10,
          config = \<lparr>hidden_size = 1, alpha = 0.1, window = 1, min_count = 1, min_alpha = 0.01,
                    sg = True, negative = 2, cbow_mean = True, iter = 20\<rparr>,
          state_sentences = 0, epochs = 0, learning_rate = Fin 1, instances = 0,
          syn0 = [[Fin 0], [Fin 1], [Fin (- 1)], [Fin 1], [Fin 1], [Fin 1], [Fin 1], [Fin 1],
                  [Fin 1], [Fin 0]],
          syn1 = [[Fin 0], [Fin 1], [Fin 1], [Fin 1], [Fin 1], [Fin 1], [Fin 1], [Fin 1],
                  [Fin 1], [Fin 1]],
          query_in = [''a''], qi_key = ''a'', queries_watched = [''b''], queries_ignored = [],
          qo_map = [''a'' \<mapsto> [''c'' \<mapsto> \<lparr>query = ''c'', status = ''NORMAL'', rank = Some 5,
                                        rank_history = Some [\<lparr>hist_rank = 5, iteration = 0\<rparr>]\<rparr>]],
          query_out_records = [], qi_vec = [Fin 0],
          count_instances_watched = 0, rnd = (\<lambda>_. 0), rnd_pos = 0\<rparr>"


text \<open>
  For that model: the items in the order of the sort, the record that a call at instance
  count 0 leaves for the word \<open>w\<close> at rank \<open>r\<close>, the records of the query before the call
  and after it, and the list given out.
\<close>

definition items10 :: "(nat \<times> jsnum) list" where
  "items10 = [(3, Fin 1), (4, Fin 1), (5, Fin 1), (6, Fin 1), (7, Fin 1), (8, Fin 1),
              (0, Fin 0), (1, Fin 0), (9, Fin 0), (2, Fin (- 1))]"

definition rec10 :: "string \<Rightarrow> nat \<Rightarrow> QueryOutRecord" where
  "rec10 w r = \<lparr>query = w, status = ''NORMAL'', rank = Some r,
                rank_history = Some [\<lparr>hist_rank = r, iteration = 0\<rparr>]\<rparr>"

definition qo10 :: "string \<rightharpoonup> QueryOutRecord" where
  "qo10 = [''c'' \<mapsto> \<lparr>query = ''c'', status = ''NORMAL'', rank = Some 5,
                    rank_history = Some [\<lparr>hist_rank = 5, iteration = 0\<rparr>]\<rparr>]"

definition Q10 :: "string \<rightharpoonup> QueryOutRecord" where
  "Q10 = qo10(''c'' \<mapsto> rec10 ''c'' 0, ''d'' \<mapsto> rec10 ''d'' 1, ''e'' \<mapsto> rec10 ''e'' 2,
              ''f'' \<mapsto> rec10 ''f'' 3, ''g'' \<mapsto> rec10 ''g'' 4, ''h'' \<mapsto> rec10 ''h'' 5,
              null_word \<mapsto> rec10 null_word 6, ''i'' \<mapsto> rec10 ''i'' 8, ''b'' \<mapsto> rec10 ''b'' 9)"

definition out10 :: "QueryOutRecord list" where
  "out10 = [rec10 ''c'' 0, rec10 ''d'' 1, rec10 ''e'' 2, rec10 ''f'' 3, rec10 ''g'' 4,
            rec10 ''h'' 5, rec10 null_word 6, rec10 ''i'' 8, rec10 ''b'' 9]"

text \<open>
  The same model with the query \<open>a -a\<close>, whose vector is \<open>syn0[1] - syn0[1]\<close>, the zero
  vector.
\<close>

definition toy10_zero :: Word2vec where
  "toy10_zero = toy10\<lparr>query_in := [''a'', ''-a''], qi_key := ''a&-a'',
                       qo_map := [''a&-a'' \<mapsto> Map.empty]\<rparr>"

text \<open>
  A record as the loop over the ranks leaves it: its rank is \<open>r\<close>, and its history ends with
  the entry of rank \<open>r\<close> at the instance count \<open>it\<close>.
\<close>

definition fresh_rec :: "nat \<Rightarrow> nat \<Rightarrow> QueryOutRecord \<Rightarrow> bool" where
  "fresh_rec it r rec =
     (rank rec = Some r \<and>
      (case rank_history rec of
         None \<Rightarrow> False
       | Some h \<Rightarrow> h \<noteq> [] \<and> last h = \<lparr>hist_rank = r, iteration = it\<rparr>))"

text \<open>
  The model \<open>toy10\<close> at instance count 3, with a record of the word \<open>c\<close> whose history
  has one entry, written at that count; the weights \<open>w10\<close>, with which \<open>init_model\<close> makes
  the matrices of \<open>toy10\<close> again; the state after \<open>init_model\<close>; and the records after the
  next call of \<open>compute_query_result\<close>.
\<close>

definition rec_late :: QueryOutRecord where
  "rec_late = \<lparr>query = ''c'', status = ''NORMAL'', rank = Some 0,
               rank_history = Some [\<lparr>hist_rank = 0, iteration = 3\<rparr>]\<rparr>"

definition toy10_late :: Word2vec where
  "toy10_late = toy10\<lparr>instances := 3, qo_map := [''a'' \<mapsto> [''c'' \<mapsto> rec_late]]\<rparr>"

definition w10 :: "nat \<Rightarrow> jsnum" where
  "w10 k = (if k = 0 \<or> k = 1 \<or> k = 18 then Fin 0 else if k = 4 then Fin (- 1) else Fin 1)"

definition toy10_reinit :: Word2vec where
  "toy10_reinit = toy10\<lparr>qo_map := [''a'' \<mapsto> [''c'' \<mapsto> rec_late]]\<rparr>"

definition rec_reinit :: QueryOutRecord where
  "rec_reinit = \<lparr>query = ''c'', status = ''NORMAL'', rank = Some 0,
                 rank_history = Some [\<lparr>hist_rank = 0, iteration = 3\<rparr>,
                                      \<lparr>hist_rank = 0, iteration = 0\<rparr>]\<rparr>"

definition Q10r :: "string \<rightharpoonup> QueryOutRecord" where
  "Q10r = [''c'' \<mapsto> rec_late](''c'' \<mapsto> rec_reinit, ''d'' \<mapsto> rec10 ''d'' 1,
              ''e'' \<mapsto> rec10 ''e'' 2, ''f'' \<mapsto> rec10 ''f'' 3, ''g'' \<mapsto> rec10 ''g'' 4,
              ''h'' \<mapsto> rec10 ''h'' 5, null_word \<mapsto> rec10 null_word 6,
              ''i'' \<mapsto> rec10 ''i'' 8, ''b'' \<mapsto> rec10 ''b'' 9)"

definition out10r :: "QueryOutRecord list" where
  "out10r = [rec_reinit, rec10 ''d'' 1, rec10 ''e'' 2, rec10 ''f'' 3, rec10 ''g'' 4,
             rec10 ''h'' 5, rec10 null_word 6, rec10 ''i'' 8, rec10 ''b'' 9]"
section \<open>Properties of the vocabulary\<close>

text \<open>The equations that evaluate \<open>build_vocab\<close> on a given corpus.\<close>

lemmas build_vocab_eval_defs = build_vocab_def split_def count_words_def count_word_def
  discard_rare_def own_keys_def is_array_index_def keep_word_def sort_words_def js_sort_def
  null_word_def vocab_count_def js_in_def inherited_keys_def Let_def

subsection \<open>Inherited names\<close>

text \<open>The shortest inherited name has seven characters.\<close>

lemma short_not_inherited: "length w < 7 \<Longrightarrow> w \<notin> set inherited_keys"
  by (auto simp: inherited_keys_def)

lemma js_in_short: "length w < 7 \<Longrightarrow> js_in w ks = (w \<in> set ks)"
  by (simp add: js_in_def short_not_inherited)

subsection \<open>The counting loop\<close>



lemma map_entry_keys: "map fst (AList.map_entry k f xs) = map fst xs"
  by (induction xs) auto

lemma map_of_None_keys: "(map_of v w = None) = (w \<notin> set (map fst v))"
  by (simp add: map_of_eq_None_iff)

lemma vocab_count_map_entry:
  "vocab_count (AList.map_entry k f v) w
     = (if w = k then (case map_of v k of None \<Rightarrow> 0 | Some it \<Rightarrow> count (f it))
        else vocab_count v w)"
  by (auto simp: vocab_count_def map_of_map_entry split: option.splits)

lemma vocab_count_map_entry_idx:
  "vocab_count (AList.map_entry k (\<lambda>it. it\<lparr>idx := i\<rparr>) v) w = vocab_count v w"
  by (auto simp: vocab_count_def map_of_map_entry split: option.splits)

lemma vocab_count_update:
  "vocab_count (AList.update k it v) w = (if w = k then count it else vocab_count v w)"
  by (simp add: vocab_count_def update_conv')

lemma vocab_count_absent: "map_of v w = None \<Longrightarrow> vocab_count v w = 0"
  by (simp add: vocab_count_def)

lemma count_word_keys:
  assumes "map fst v = i2w"
  shows "map fst (fst (count_word (v, i2w) w)) = snd (count_word (v, i2w) w)"
    and "snd (count_word (v, i2w) w) = (if js_in w i2w then i2w else i2w @ [w])"
  using assms
  by (auto simp: count_word_def map_entry_keys update_keys js_in_def
      simp del: set_map)

lemma count_word_count:
  assumes "map fst v = i2w"
  shows "vocab_count (fst (count_word (v, i2w) w)) w'
           = vocab_count v w'
             + (if w' = w \<and> (w \<in> set i2w \<or> w \<notin> set inherited_keys) then 1 else 0)"
proof (cases "w \<in> set i2w")
  case True
  then have "map_of v w \<noteq> None" using assms by (simp add: map_of_None_keys)
  then show ?thesis
    using True assms by (auto simp: count_word_def js_in_def vocab_count_def map_of_map_entry)
next
  case False
  then have n: "map_of v w = None" using assms by (simp add: map_of_None_keys)
  show ?thesis
  proof (cases "w \<in> set inherited_keys")
    case True
    then show ?thesis
      using False n assms
      by (simp add: count_word_def js_in_def vocab_count_map_entry vocab_count_absent)
  next
    case False
    then show ?thesis
      using \<open>w \<notin> set i2w\<close> n assms
      by (auto simp: count_word_def js_in_def vocab_count_map_entry vocab_count_update
          update_conv' vocab_count_absent simp del: set_map)
  qed
qed

lemma foldl_count_word:
  assumes "map fst v = i2w" "distinct i2w" "set i2w \<inter> set inherited_keys = {}"
  shows "map fst (fst (foldl count_word (v, i2w) ws)) = snd (foldl count_word (v, i2w) ws)
       \<and> distinct (snd (foldl count_word (v, i2w) ws))
       \<and> set (snd (foldl count_word (v, i2w) ws)) = set i2w \<union> (set ws - set inherited_keys)
       \<and> (\<forall>w. vocab_count (fst (foldl count_word (v, i2w) ws)) w
              = vocab_count v w + (if w \<in> set inherited_keys then 0 else count_list ws w))"
  using assms
proof (induction ws arbitrary: v i2w)
  case Nil
  then show ?case by simp
next
  case (Cons a ws)
  obtain v1 i1 where s: "count_word (v, i2w) a = (v1, i1)" by (cases "count_word (v, i2w) a")
  have k: "map fst v1 = i1" "i1 = (if js_in a i2w then i2w else i2w @ [a])"
    using count_word_keys[OF Cons.prems(1), of a] s by auto
  have d: "distinct i1" using k Cons.prems(2) by (auto simp: js_in_def)
  have h: "set i1 \<inter> set inherited_keys = {}"
    using k(2) Cons.prems(3) by (auto simp: js_in_def)
  have e: "set i1 = set i2w \<union> ({a} - set inherited_keys)"
    using k(2) by (auto simp: js_in_def)
  have own: "a \<in> set i2w \<Longrightarrow> a \<notin> set inherited_keys" using Cons.prems(3) by auto
  have c: "\<And>w. vocab_count v1 w = vocab_count v w
               + (if w = a \<and> a \<notin> set inherited_keys then 1 else 0)"
    using count_word_count[OF Cons.prems(1), of a] s own by auto
  show ?case using Cons.IH[OF k(1) d h] e c by (auto simp: s)
qed

lemma foldl_foldl_concat:
  "foldl (\<lambda>a x. foldl f a (g x)) a xs = foldl f a (concat (map g xs))"
  by (induction xs arbitrary: a) auto

lemma count_words_tokens:
  "count_words (split (CHR 0x0A) corpus) = foldl count_word ([], []) (tokens corpus)"
  by (simp add: count_words_def tokens_def foldl_foldl_concat)


lemma set_own_keys: "set (own_keys ks) = set ks"
  by (auto simp: own_keys_def)

lemma distinct_own_keys: "distinct ks \<Longrightarrow> distinct (own_keys ks)"
  by (auto simp: own_keys_def)

lemma keep_word_step:
  assumes "map_of v w = Some item"
  shows "keep_word m v (vt, it) w =
           (if m \<le> count item
            then (AList.update w (item\<lparr>idx := length it\<rparr>) vt, it @ [w])
            else (vt, it))"
  using assms by (simp add: keep_word_def)

lemma foldl_keep_word:
  assumes "map fst vt = it" "distinct (it @ ks)" "\<forall>k\<in>set ks. map_of v k \<noteq> None"
  shows "map fst (fst (foldl (keep_word m v) (vt, it) ks)) = snd (foldl (keep_word m v) (vt, it) ks)
       \<and> snd (foldl (keep_word m v) (vt, it) ks) = it @ filter (\<lambda>w. m \<le> vocab_count v w) ks
       \<and> (\<forall>w. vocab_count (fst (foldl (keep_word m v) (vt, it) ks)) w =
              (if w \<in> set (filter (\<lambda>w. m \<le> vocab_count v w) ks)
               then vocab_count v w else vocab_count vt w))"
  using assms
proof (induction ks arbitrary: vt it)
  case Nil
  then show ?case by simp
next
  case (Cons k ks)
  obtain item where item: "map_of v k = Some item" using Cons.prems(3) by auto
  have vc: "vocab_count v k = count item" using item by (simp add: vocab_count_def)
  show ?case
  proof (cases "m \<le> count item")
    case True
    let ?vt = "AList.update k (item\<lparr>idx := length it\<rparr>) vt"
    have st: "keep_word m v (vt, it) k = (?vt, it @ [k])"
      using keep_word_step[OF item] True by simp
    have k1: "map fst ?vt = it @ [k]"
      using Cons.prems(1,2) by (simp add: update_keys)
    have d1: "distinct ((it @ [k]) @ ks)" using Cons.prems(2) by simp
    have n1: "\<forall>k\<in>set ks. map_of v k \<noteq> None" using Cons.prems(3) by simp
    have kn: "k \<notin> set ks" using Cons.prems(2) by simp
    show ?thesis
      using Cons.IH[OF k1 d1 n1] True vc kn
      by (auto simp: st vocab_count_update)
  next
    case False
    have st: "keep_word m v (vt, it) k = (vt, it)"
      using keep_word_step[OF item] False by simp
    have d1: "distinct (it @ ks)" using Cons.prems(2) by simp
    have n1: "\<forall>k\<in>set ks. map_of v k \<noteq> None" using Cons.prems(3) by simp
    show ?thesis
      using Cons.IH[OF Cons.prems(1) d1 n1] False vc
      by (auto simp: st)
  qed
qed

lemma js_sort_sort_key:
  assumes "\<And>x y. after x y = (g y < g x)"
  shows "js_sort after xs = sort_key (g :: 'a \<Rightarrow> 'b :: linorder) xs"
proof -
  have ins: "\<And>x ys. insert_by after x ys = insort_key g x ys"
  proof -
    fix x ys show "insert_by after x ys = insort_key g x ys"
      by (induction ys) (auto simp: assms)
  qed
  show ?thesis
    unfolding js_sort_def sort_key_def by (induction xs) (simp_all add: ins)
qed

lemma js_sort_count:
  "js_sort (\<lambda>a b. vocab_count v a < vocab_count v b) xs
     = sort_key (\<lambda>w. - int (vocab_count v w)) xs"
  by (rule js_sort_sort_key) simp

lemma assign_idx:
  assumes "distinct xs" "b \<le> length xs"
  shows "(\<forall>j. a \<le> j \<and> j < b \<longrightarrow>
            map_of (foldl (\<lambda>v i. AList.map_entry (xs ! i) (\<lambda>it. it\<lparr>idx := i\<rparr>) v) v0 [a..<b]) (xs ! j)
              = map_option (\<lambda>it. it\<lparr>idx := j\<rparr>) (map_of v0 (xs ! j)))
       \<and> (\<forall>w. (\<forall>j. a \<le> j \<and> j < b \<longrightarrow> xs ! j \<noteq> w) \<longrightarrow>
            map_of (foldl (\<lambda>v i. AList.map_entry (xs ! i) (\<lambda>it. it\<lparr>idx := i\<rparr>) v) v0 [a..<b]) w
              = map_of v0 w)"
  using assms(2)
proof (induction b)
  case 0
  then show ?case by simp
next
  case (Suc b)
  show ?case
  proof (cases "a \<le> b")
    case False
    then show ?thesis by auto
  next
    case True
    have ne: "\<And>j. j < b \<Longrightarrow> xs ! j \<noteq> xs ! b"
      using assms(1) Suc.prems by (simp add: nth_eq_iff_index_eq)
    have IH: "(\<forall>j. a \<le> j \<and> j < b \<longrightarrow>
            map_of (foldl (\<lambda>v i. AList.map_entry (xs ! i) (\<lambda>it. it\<lparr>idx := i\<rparr>) v) v0 [a..<b]) (xs ! j)
              = map_option (\<lambda>it. it\<lparr>idx := j\<rparr>) (map_of v0 (xs ! j)))
       \<and> (\<forall>w. (\<forall>j. a \<le> j \<and> j < b \<longrightarrow> xs ! j \<noteq> w) \<longrightarrow>
            map_of (foldl (\<lambda>v i. AList.map_entry (xs ! i) (\<lambda>it. it\<lparr>idx := i\<rparr>) v) v0 [a..<b]) w
              = map_of v0 w)"
      using Suc by simp
    show ?thesis
      using True IH ne
      by (auto simp: map_of_map_entry less_Suc_eq map_option_case split: option.splits)
  qed
qed

lemma assign_idx_keys:
  "map fst (foldl (\<lambda>v i. AList.map_entry (xs ! i) (\<lambda>it. it\<lparr>idx := i\<rparr>) v) v0 is) = map fst v0"
  by (induction "is" arbitrary: v0) (simp_all add: map_entry_keys)

lemma assign_idx_count:
  "vocab_count (foldl (\<lambda>v i. AList.map_entry (xs ! i) (\<lambda>it. it\<lparr>idx := i\<rparr>) v) v0 is) w
     = vocab_count v0 w"
  by (induction "is" arbitrary: v0) (simp_all add: vocab_count_map_entry_idx)


lemma count_words_facts:
  assumes "count_words (split (CHR 0x0A) corpus) = (v0, i0)"
  shows "map fst v0 = i0" "distinct i0" "set i0 = set (tokens corpus) - set inherited_keys"
    "\<And>w. vocab_count v0 w
       = (if w \<in> set inherited_keys then 0 else count_list (tokens corpus) w)"
  using foldl_count_word[of "[]" "[]" "tokens corpus"] assms
  by (simp_all add: count_words_tokens vocab_count_def)

lemma count_words_plain:
  assumes "count_words (split (CHR 0x0A) corpus) = (v0, i0)"
    and "set (tokens corpus) \<inter> set inherited_keys = {}"
  shows "set i0 = set (tokens corpus)"
    "\<And>w. vocab_count v0 w = count_list (tokens corpus) w"
proof -
  show "set i0 = set (tokens corpus)"
    using count_words_facts(3)[OF assms(1)] assms(2) by auto
  fix w
  have "w \<in> set inherited_keys \<Longrightarrow> count_list (tokens corpus) w = 0"
    using assms(2) by (auto simp: count_list_0_iff)
  then show "vocab_count v0 w = count_list (tokens corpus) w"
    using count_words_facts(4)[OF assms(1), of w] by auto
qed

lemma discard_rare_facts:
  assumes "map fst v0 = i0" "distinct i0"
    and "discard_rare m (v0, i0) = (v1, i1)"
  shows "map fst v1 = i1" "distinct i1"
    "set i1 = {w \<in> set i0. m > 1 \<longrightarrow> m \<le> vocab_count v0 w}"
    "\<And>w. w \<in> set i1 \<Longrightarrow> vocab_count v1 w = vocab_count v0 w"
proof -
  have all: "map fst v1 = i1 \<and> distinct i1
      \<and> set i1 = {w \<in> set i0. m > 1 \<longrightarrow> m \<le> vocab_count v0 w}
      \<and> (\<forall>w. w \<in> set i1 \<longrightarrow> vocab_count v1 w = vocab_count v0 w)"
  proof (cases "m > 1")
    case False
    then show ?thesis using assms by (auto simp: discard_rare_def)
  next
    case True
    have d: "distinct ([] @ own_keys i0)" using assms(2) by (simp add: distinct_own_keys)
    have n: "\<forall>k\<in>set (own_keys i0). map_of v0 k \<noteq> None"
      using assms(1) by (simp add: set_own_keys map_of_None_keys)
    have e: "foldl (keep_word m v0) ([], []) (own_keys i0) = (v1, i1)"
      using assms(1,3) True by (simp add: discard_rare_def)
    show ?thesis
      using foldl_keep_word[of "[]" "[]" "own_keys i0" v0 m, OF _ d n] True assms(2)
      by (auto simp: e set_own_keys distinct_own_keys)
  qed
  show "map fst v1 = i1" "distinct i1"
    "set i1 = {w \<in> set i0. m > 1 \<longrightarrow> m \<le> vocab_count v0 w}"
    "\<And>w. w \<in> set i1 \<Longrightarrow> vocab_count v1 w = vocab_count v0 w"
    using all by auto
qed

lemma sort_words_facts:
  assumes "map fst v1 = i1" "distinct i1" "null_word \<notin> set i1"
    and "sort_words (v1, i1) = (v2, i2)"
  shows "i2 = null_word # sort_key (\<lambda>w. - int (vocab_count v1 w)) i1"
    "map fst v2 = i1 @ [null_word]"
    "map_of v2 null_word = Some \<lparr>idx = 0, count = 1\<rparr>"
    "\<And>j. 1 \<le> j \<Longrightarrow> j < length i2 \<Longrightarrow>
        \<exists>item. map_of v2 (i2 ! j) = Some item \<and> idx item = j
             \<and> count item = vocab_count v1 (i2 ! j)"
proof -
  let ?s = "sort_key (\<lambda>w. - int (vocab_count v1 w)) i1"
  let ?i2 = "null_word # ?s"
  let ?u = "AList.update null_word \<lparr>idx = 0, count = 1\<rparr> v1"
  let ?F = "foldl (\<lambda>v i. AList.map_entry (?i2 ! i) (\<lambda>it. it\<lparr>idx := i\<rparr>) v) ?u [1..<length ?i2]"
  have "sort_words (v1, i1) = (?F, ?i2)"
    by (simp only: sort_words_def Let_def js_sort_count prod.case nth_Cons_0)
  then have e: "v2 = ?F" "i2 = ?i2"
    using assms(4) by simp_all
  show "i2 = ?i2" by (rule e)
  show "map fst v2 = i1 @ [null_word]"
    using assms(1,3) by (simp add: e assign_idx_keys update_keys)
  have d: "distinct ?i2" using assms(2,3) by simp
  note A = assign_idx[OF d, of "length ?i2" 1 ?u, simplified]
  have "\<forall>j. 1 \<le> j \<and> j < length ?i2 \<longrightarrow> ?i2 ! j \<noteq> null_word"
    using d by (metis One_nat_def Suc_le_eq distinct_conv_nth length_greater_0_conv list.distinct(1) nth_Cons_0 less_numeral_extra(3))
  then have "map_of ?F null_word = map_of ?u null_word"
    using A by simp
  then show "map_of v2 null_word = Some \<lparr>idx = 0, count = 1\<rparr>"
    by (simp add: e update_conv')
  fix j assume j: "1 \<le> j" "j < length i2"
  have jn: "?i2 ! j \<noteq> null_word"
    using d j e(2)
    by (metis One_nat_def Suc_le_eq distinct_conv_nth length_greater_0_conv list.distinct(1) nth_Cons_0 less_numeral_extra(3))
  have "?s ! (j - 1) \<in> set ?s"
    using j e(2) by (intro nth_mem) simp
  then have jm: "?i2 ! j \<in> set i1"
    using j by (cases j) simp_all
  obtain it where it: "map_of v1 (?i2 ! j) = Some it"
    using jm assms(1) by (metis map_of_None_keys not_Some_eq)
  have "map_of ?F (?i2 ! j) = map_option (\<lambda>it. it\<lparr>idx := j\<rparr>) (map_of ?u (?i2 ! j))"
    using A j e(2) by simp
  then have "map_of v2 (i2 ! j) = Some (it\<lparr>idx := j\<rparr>)"
    using jn it by (simp add: e update_conv')
  then show "\<exists>item. map_of v2 (i2 ! j) = Some item \<and> idx item = j
             \<and> count item = vocab_count v1 (i2 ! j)"
    using it by (simp add: vocab_count_def e(2))
qed



lemma foldl_add_upt:
  "foldl (\<lambda>acc i. acc + g i) a [0..<k] = a + (\<Sum>i<k. (g i :: real))"
  by (induction k) simp_all

lemma train_words_pow_sum:
  "train_words_pow_of v i2w = (\<Sum>i<length i2w. weight v i2w i)"
  by (simp add: train_words_pow_of_def foldl_add_upt weight_def)

lemma cum_fold:
  assumes "k \<le> length tbl"
  shows "foldl (cum_step v i2w T) (0, tbl) [0..<k]
         = ((\<Sum>i<k. weight v i2w i / T),
            map (\<lambda>j. round ((\<Sum>i<Suc j. weight v i2w i / T) * real_of_int cum_table_domain)) [0..<k]
            @ drop k tbl)"
  using assms
proof (induction k)
  case 0
  then show ?case by simp
next
  case (Suc k)
  have d: "drop k tbl = tbl ! k # drop (Suc k) tbl"
    using Suc.prems by (simp add: Cons_nth_drop_Suc)
  show ?case
    using Suc by (simp add: cum_step_def weight_def d list_update_append Let_def)
qed

lemma make_cum_table_eq:
  "make_cum_table v i2w =
     map (\<lambda>j. round ((\<Sum>i<Suc j. weight v i2w i / (\<Sum>i<length i2w. weight v i2w i))
                    * real_of_int cum_table_domain)) [0..<length i2w]"
  using cum_fold[of "length i2w" "replicate (length i2w) 0" v i2w "train_words_pow_of v i2w"]
  by (simp add: make_cum_table_def Let_def train_words_pow_sum)

lemma weight_nonneg: "0 \<le> weight v i2w i"
  by (simp add: weight_def)

lemma cum_frac_mono:
  assumes "0 < T" "j \<le> k"
  shows "(\<Sum>i<Suc j. weight v i2w i / T) \<le> (\<Sum>i<Suc k. weight v i2w i / T)"
  using assms by (intro sum_mono2) (auto simp: weight_nonneg)

lemma cum_frac_last:
  assumes "0 < (\<Sum>i<n. weight v i2w i)"
  shows "(\<Sum>i<n. weight v i2w i / (\<Sum>i<n. weight v i2w i)) = 1"
  using assms by (simp add: sum_divide_distrib[symmetric])

lemma make_cum_table_facts:
  assumes "0 < (\<Sum>i<length i2w. weight v i2w i)"
  shows "length (make_cum_table v i2w) = length i2w"
    and "sorted (make_cum_table v i2w)"
    and "\<And>x. x \<in> set (make_cum_table v i2w) \<Longrightarrow> 0 \<le> x \<and> x \<le> cum_table_domain"
    and "i2w \<noteq> [] \<Longrightarrow> last (make_cum_table v i2w) = cum_table_domain"
proof -
  let ?T = "\<Sum>i<length i2w. weight v i2w i"
  let ?c = "\<lambda>j. (\<Sum>i<Suc j. weight v i2w i / ?T)"
  let ?D = "real_of_int cum_table_domain"
  have D: "0 \<le> ?D" by (simp add: cum_table_domain_def)
  show len: "length (make_cum_table v i2w) = length i2w"
    by (simp add: make_cum_table_eq)
  have nth: "\<And>j. j < length i2w \<Longrightarrow> make_cum_table v i2w ! j = round (?c j * ?D)"
    by (simp add: make_cum_table_eq)
  have top: "\<And>j. j < length i2w \<Longrightarrow> ?c j \<le> 1"
  proof -
    fix j assume j: "j < length i2w"
    then obtain n where n: "length i2w = Suc n" by (cases "length i2w") auto
    have "?c j \<le> ?c n" using cum_frac_mono[OF assms, of j n] j n by simp
    also have "?c n = 1" using cum_frac_last[OF assms] n by simp
    finally show "?c j \<le> 1" .
  qed
  have bot: "\<And>j. 0 \<le> ?c j"
    using assms by (intro sum_nonneg) (simp add: weight_nonneg)
  show "sorted (make_cum_table v i2w)"
    unfolding sorted_iff_nth_mono
  proof (intro allI impI)
    fix i j assume ij: "i \<le> j" "j < length (make_cum_table v i2w)"
    then have "?c i * ?D \<le> ?c j * ?D"
      using cum_frac_mono[OF assms, of i j] D by (intro mult_right_mono) auto
    then show "make_cum_table v i2w ! i \<le> make_cum_table v i2w ! j"
      using ij len by (simp add: nth round_mono)
  qed
  show "\<And>x. x \<in> set (make_cum_table v i2w) \<Longrightarrow> 0 \<le> x \<and> x \<le> cum_table_domain"
  proof -
    fix x assume "x \<in> set (make_cum_table v i2w)"
    then obtain j where j: "j < length i2w" "x = round (?c j * ?D)"
      using len nth by (metis in_set_conv_nth)
    have "round (0::real) \<le> round (?c j * ?D)"
      using bot[of j] D by (intro round_mono) simp
    moreover have "?c j * ?D \<le> 1 * ?D"
      using top[OF j(1)] D by (intro mult_right_mono)
    then have "round (?c j * ?D) \<le> round ?D"
      using round_mono[of "?c j * ?D" ?D] by simp
    ultimately show "0 \<le> x \<and> x \<le> cum_table_domain"
      using j by simp
  qed
  show "i2w \<noteq> [] \<Longrightarrow> last (make_cum_table v i2w) = cum_table_domain"
  proof -
    assume ne: "i2w \<noteq> []"
    then obtain n where n: "length i2w = Suc n" by (cases i2w) auto
    have "last (make_cum_table v i2w) = make_cum_table v i2w ! n"
      using len n by (metis diff_Suc_1 last_conv_nth length_0_conv nat.distinct(1))
    also have "\<dots> = round (?c n * ?D)" using nth n by simp
    also have "?c n = 1" using cum_frac_last[OF assms] n by simp
    finally show ?thesis by simp
  qed
qed


lemma build_vocab_fields:
  assumes "sort_words (discard_rare m (count_words (split (CHR 0x0A) corpus))) = (v2, i2)"
  shows "vocab (build_vocab m corpus) = v2" "index2word (build_vocab m corpus) = i2"
    "vocab_size (build_vocab m corpus) = length i2"
    "cum_table (build_vocab m corpus) = make_cum_table v2 i2"
    "sentences (build_vocab m corpus) = split (CHR 0x0A) corpus"
  using assms by (simp_all add: build_vocab_def Let_def)

lemma sort_words_general:
  assumes "sort_words (v1, i1) = (v2, i2)"
  shows "i2 = null_word # sort_key (\<lambda>w. - int (vocab_count v1 w)) i1"
    and "\<And>w. vocab_count v2 w = (if w = null_word then 1 else vocab_count v1 w)"
proof -
  let ?s = "sort_key (\<lambda>w. - int (vocab_count v1 w)) i1"
  let ?i2 = "null_word # ?s"
  let ?u = "AList.update null_word \<lparr>idx = 0, count = 1\<rparr> v1"
  let ?F = "foldl (\<lambda>v i. AList.map_entry (?i2 ! i) (\<lambda>it. it\<lparr>idx := i\<rparr>) v) ?u [1..<length ?i2]"
  have "sort_words (v1, i1) = (?F, ?i2)"
    by (simp only: sort_words_def Let_def js_sort_count prod.case nth_Cons_0)
  then have e: "v2 = ?F" "i2 = ?i2"
    using assms by simp_all
  show "i2 = ?i2" by (rule e)
  fix w show "vocab_count v2 w = (if w = null_word then 1 else vocab_count v1 w)"
    unfolding e(1) assign_idx_count by (simp add: vocab_count_update)
qed

lemma weight_sum_pos:
  assumes "sort_words (v1, i1) = (v2, i2)"
  shows "0 < (\<Sum>i<length i2. weight v2 i2 i)"
proof -
  have i2: "i2 ! 0 = null_word" "0 < length i2"
    using sort_words_general(1)[OF assms] by simp_all
  have "weight v2 i2 0 = 1"
    using sort_words_general(2)[OF assms, of null_word] i2 by (simp add: weight_def)
  moreover have "weight v2 i2 0 \<le> (\<Sum>i<length i2. weight v2 i2 i)"
    using i2(2) by (intro member_le_sum) (simp_all add: weight_nonneg)
  ultimately show ?thesis by simp
qed

lemma dense_idx:
  assumes dk: "distinct (map fst v)" and ks: "set (map fst v) = set xs" and dx: "distinct xs"
    and A: "\<forall>i<length xs. \<exists>item. map_of v (xs ! i) = Some item \<and> idx item = i"
  shows "set (map (idx \<circ> snd) v) = {..<length xs}" "distinct (map (idx \<circ> snd) v)"
proof -
  have ent: "\<And>w it. (w, it) \<in> set v \<Longrightarrow> \<exists>i<length xs. w = xs ! i \<and> idx it = i"
  proof -
    fix w it assume m: "(w, it) \<in> set v"
    then have mo: "map_of v w = Some it" using dk by simp
    have "w \<in> set xs" using m ks by force
    then obtain i where i: "i < length xs" "xs ! i = w" by (auto simp: in_set_conv_nth)
    then have "idx it = i" using A mo by auto
    then show "\<exists>i<length xs. w = xs ! i \<and> idx it = i" using i by auto
  qed
  show "set (map (idx \<circ> snd) v) = {..<length xs}"
  proof (intro set_eqI iffI)
    fix n assume "n \<in> set (map (idx \<circ> snd) v)"
    then obtain w it where "(w, it) \<in> set v" "n = idx it" by auto
    then show "n \<in> {..<length xs}" using ent by auto
  next
    fix n assume "n \<in> {..<length xs}"
    then have n: "n < length xs" by simp
    then obtain item where it: "map_of v (xs ! n) = Some item" "idx item = n" using A by auto
    then have "(xs ! n, item) \<in> set v" by (simp add: map_of_SomeD)
    then show "n \<in> set (map (idx \<circ> snd) v)" using it(2) by force
  qed
  have "inj_on (idx \<circ> snd) (set v)"
  proof (rule inj_onI)
    fix p q assume pq: "p \<in> set v" "q \<in> set v" "(idx \<circ> snd) p = (idx \<circ> snd) q"
    obtain w it where p: "p = (w, it)" by (cases p)
    obtain w' it' where q: "q = (w', it')" by (cases q)
    from ent[of w it] ent[of w' it'] pq p q have "w = w'" by auto
    moreover have "map_of v w = Some it" "map_of v w' = Some it'"
      using pq p q dk by simp_all
    ultimately show "p = q" using p q by simp
  qed
  moreover have "distinct v" using dk by (rule distinct_map[THEN iffD1, THEN conjunct1])
  ultimately show "distinct (map (idx \<circ> snd) v)" by (simp add: distinct_map)
qed


lemma build_vocab_cum_table:
  "let r = build_vocab min_cnt corpus in
     0 < vocab_size r
   \<and> length (cum_table r) = vocab_size r
   \<and> sorted (cum_table r)
   \<and> (\<forall>x\<in>set (cum_table r). 0 \<le> x \<and> x \<le> cum_table_domain)
   \<and> last (cum_table r) = cum_table_domain"
proof -
  obtain v1 i1 where p: "discard_rare min_cnt (count_words (split (CHR 0x0A) corpus)) = (v1, i1)"
    by (cases "discard_rare min_cnt (count_words (split (CHR 0x0A) corpus))")
  obtain v2 i2 where s: "sort_words (v1, i1) = (v2, i2)"
    by (cases "sort_words (v1, i1)")
  have b: "sort_words (discard_rare min_cnt (count_words (split (CHR 0x0A) corpus))) = (v2, i2)"
    using p s by simp
  have ne: "i2 \<noteq> []" using sort_words_general(1)[OF s] by simp
  note F = make_cum_table_facts[OF weight_sum_pos[OF s]]
  show ?thesis
    unfolding Let_def build_vocab_fields[OF b]
    using ne F by auto
qed

text \<open>
  A token that is an inherited name gets no entry: the corpus \<open>constructor constructor\<close>
  with \<open>min_count = 1\<close> leaves the null word alone, although the token occurs twice.
\<close>

lemma build_vocab_inherited_token:
  "index2word (build_vocab 1 ''constructor constructor'') = [null_word]"
  "vocab (build_vocab 1 ''constructor constructor'') = [(null_word, \<lparr>idx = 0, count = 1\<rparr>)]"
  "vocab_size (build_vocab 1 ''constructor constructor'') = 1"
  "count_list (tokens ''constructor constructor'') ''constructor'' = 2"
  by (simp_all add: build_vocab_eval_defs tokens_def)

subsection \<open>The claims about \<open>build_vocab\<close>\<close>

text \<open>
  Claim C4, as amended. For a corpus none of whose tokens is the null word or a name
  inherited from \<open>Object.prototype\<close>, the vocabulary that \<open>build_vocab\<close> leaves is a
  dense permutation: \<open>index2word\<close> has \<open>vocab_size\<close> distinct words, they are exactly the
  keys of \<open>vocab\<close>, the entry of the word at position \<open>i\<close> has index \<open>i\<close>, and the
  indices of all entries are exactly \<open>0, ..., vocab_size - 1\<close>, each once. Position 0
  holds the null word with count 1. The other words are exactly the tokens whose number
  of occurrences is at least \<open>min_count\<close>, each with that number as its count, in order
  of non-increasing count; words of equal count stay in the order in which the loops
  before the sort left them.
\<close>

theorem build_vocab_dense_permutation:
  assumes "null_word \<notin> set (tokens corpus)"
    and "set (tokens corpus) \<inter> set inherited_keys = {}"
  shows "let r = build_vocab min_cnt corpus; ts = tokens corpus in
      vocab_size r = length (index2word r)
    \<and> distinct (index2word r)
    \<and> distinct (map fst (vocab r))
    \<and> set (map fst (vocab r)) = set (index2word r)
    \<and> (\<forall>i<vocab_size r. \<exists>item. map_of (vocab r) (index2word r ! i) = Some item \<and> idx item = i)
    \<and> distinct (map (idx \<circ> snd) (vocab r))
    \<and> set (map (idx \<circ> snd) (vocab r)) = {..<vocab_size r}
    \<and> index2word r ! 0 = null_word
    \<and> map_of (vocab r) null_word = Some \<lparr>idx = 0, count = 1\<rparr>
    \<and> set (tl (index2word r)) = {w \<in> set ts. min_cnt \<le> count_list ts w}
    \<and> (\<forall>w\<in>set (tl (index2word r)). vocab_count (vocab r) w = count_list ts w)
    \<and> (\<forall>i j. 1 \<le> i \<and> i \<le> j \<and> j < vocab_size r \<longrightarrow>
          vocab_count (vocab r) (index2word r ! j) \<le> vocab_count (vocab r) (index2word r ! i))
    \<and> (\<forall>c. filter (\<lambda>w. vocab_count (vocab r) w = c) (tl (index2word r))
           = filter (\<lambda>w. vocab_count (vocab r) w = c)
               (snd (discard_rare min_cnt (count_words (sentences r)))))"
proof -
  let ?ts = "tokens corpus"
  obtain v0 i0 where c: "count_words (split (CHR 0x0A) corpus) = (v0, i0)"
    by (cases "count_words (split (CHR 0x0A) corpus)")
  obtain v1 i1 where p: "discard_rare min_cnt (v0, i0) = (v1, i1)"
    by (cases "discard_rare min_cnt (v0, i0)")
  obtain v2 i2 where s: "sort_words (v1, i1) = (v2, i2)"
    by (cases "sort_words (v1, i1)")
  have b: "sort_words (discard_rare min_cnt (count_words (split (CHR 0x0A) corpus))) = (v2, i2)"
    using c p s by simp
  note C = count_words_facts(1,2)[OF c] count_words_plain[OF c assms(2)]
  note P = discard_rare_facts[OF C(1,2) p]
  have pos: "\<And>w. w \<in> set ?ts \<Longrightarrow> 1 \<le> count_list ?ts w"
    by (metis One_nat_def Suc_leI count_list_0_iff neq0_conv)
  have i1set: "set i1 = {w \<in> set ?ts. min_cnt \<le> count_list ?ts w}"
  proof (cases "1 < min_cnt")
    case True
    then show ?thesis using P(3) C(3,4) by auto
  next
    case False
    then have "\<And>w. w \<in> set ?ts \<Longrightarrow> min_cnt \<le> count_list ?ts w"
      using pos by (meson le_trans not_less)
    then show ?thesis using P(3) C(3) False by auto
  qed
  have nn: "null_word \<notin> set i1" using i1set assms(1) by simp
  note S = sort_words_facts[OF P(1,2) nn s]
  note G = sort_words_general[OF s]
  let ?f = "\<lambda>w. - int (vocab_count v1 w)"
  have i2: "i2 = null_word # sort_key ?f i1" by (rule S(1))
  have d2: "distinct i2" using i2 P(2) nn by simp
  have t2: "tl i2 = sort_key ?f i1" using i2 by simp
  have cnt2: "\<And>w. w \<in> set i1 \<Longrightarrow> vocab_count v2 w = count_list ?ts w"
    using G(2) nn P(4) C(4) by auto
  have cnt21: "\<And>w. w \<in> set i1 \<Longrightarrow> vocab_count v2 w = vocab_count v1 w"
    using G(2) nn by auto
  have A: "\<forall>i<length i2. \<exists>item. map_of v2 (i2 ! i) = Some item \<and> idx item = i"
  proof (intro allI impI)
    fix i assume i: "i < length i2"
    show "\<exists>item. map_of v2 (i2 ! i) = Some item \<and> idx item = i"
    proof (cases "i = 0")
      case True
      then show ?thesis using S(3) i2 by simp
    next
      case False
      then show ?thesis using S(4)[of i] i by auto
    qed
  qed
  have srt: "sorted (map ?f (sort_key ?f i1))" by (rule sorted_sort_key)
  have B: "\<forall>i j. 1 \<le> i \<and> i \<le> j \<and> j < length i2 \<longrightarrow>
          vocab_count v2 (i2 ! j) \<le> vocab_count v2 (i2 ! i)"
  proof (intro allI impI)
    fix i j assume ij: "1 \<le> i \<and> i \<le> j \<and> j < length i2"
    let ?s = "sort_key ?f i1"
    have l: "i - 1 \<le> j - 1" "j - 1 < length ?s" using ij i2 by auto
    have e: "i2 ! i = ?s ! (i - 1)" "i2 ! j = ?s ! (j - 1)"
      using ij i2 by (auto simp: nth_Cons')
    have m: "?s ! (i - 1) \<in> set i1" "?s ! (j - 1) \<in> set i1"
      using l by (metis nth_mem set_sort le_less_trans)+
    have "map ?f ?s ! (i - 1) \<le> map ?f ?s ! (j - 1)"
      using srt l by (simp add: sorted_iff_nth_mono del: sorted_sort_key)
    then have "vocab_count v1 (?s ! (j - 1)) \<le> vocab_count v1 (?s ! (i - 1))"
      using l by simp
    then show "vocab_count v2 (i2 ! j) \<le> vocab_count v2 (i2 ! i)"
      using e m cnt21 by simp
  qed
  have St: "\<forall>c. filter (\<lambda>w. vocab_count v2 w = c) (tl i2) = filter (\<lambda>w. vocab_count v2 w = c) i1"
  proof
    fix c
    have "filter (\<lambda>w. vocab_count v2 w = c) (sort_key ?f i1)
            = filter (\<lambda>w. ?f w = - int c) (sort_key ?f i1)"
      by (rule filter_cong) (auto simp: cnt21)
    also have "\<dots> = filter (\<lambda>w. ?f w = - int c) i1" by (rule sort_key_stable)
    also have "\<dots> = filter (\<lambda>w. vocab_count v2 w = c) i1"
      by (rule filter_cong) (auto simp: cnt21)
    finally show "filter (\<lambda>w. vocab_count v2 w = c) (tl i2) = filter (\<lambda>w. vocab_count v2 w = c) i1"
      using t2 by simp
  qed
  have K: "distinct (map fst v2)" "set (map fst v2) = set i2"
    using S(2) P(2) nn i2 by auto
  note Dn = dense_idx[OF K d2 A]
  show ?thesis
    unfolding Let_def build_vocab_fields[OF b]
    using d2 K A Dn S(3) i2 t2 i1set cnt2 B St c p
    by (simp del: set_map)
qed

text \<open>The theorem at the corpus \<open>b a a\<close> with \<open>min_count = 1\<close>.\<close>

theorem build_vocab_dense_permutation_witness:
  "null_word \<notin> set (tokens ''b a a'')
   \<and> set (tokens ''b a a'') \<inter> set inherited_keys = {}
   \<and> index2word (build_vocab 1 ''b a a'') = [null_word, ''a'', ''b'']
   \<and> distinct (index2word (build_vocab 1 ''b a a''))
   \<and> set (map (idx \<circ> snd) (vocab (build_vocab 1 ''b a a''))) = {..<3}
   \<and> map_of (vocab (build_vocab 1 ''b a a'')) null_word = Some \<lparr>idx = 0, count = 1\<rparr>
   \<and> vocab_count (vocab (build_vocab 1 ''b a a'')) ''a'' = 2"
proof -
  have h: "null_word \<notin> set (tokens ''b a a'')"
    by (simp add: tokens_def split_def null_word_def)
  have g: "set (tokens ''b a a'') \<inter> set inherited_keys = {}"
    by (simp add: tokens_def split_def inherited_keys_def)
  have e: "index2word (build_vocab 1 ''b a a'') = [null_word, ''a'', ''b'']"
    "vocab_size (build_vocab 1 ''b a a'') = 3"
    "vocab_count (vocab (build_vocab 1 ''b a a'')) ''a'' = 2"
    by (simp_all add: build_vocab_eval_defs)
  show ?thesis
    using h g e build_vocab_dense_permutation[OF h g, of 1]
    by (simp add: Let_def)
qed

text \<open>
  Claim C4 as stated fails for a corpus that contains the null word as a token. For the
  corpus that is the one character NUL, with \<open>min_count = 1\<close>: \<open>index2word\<close> holds the
  null word twice, \<open>vocab\<close> has one entry, and its index is 1, so no entry has index 0.
\<close>

theorem build_vocab_null_token_counterexample:
  "vocab_size (build_vocab 1 [CHR 0x00]) = 2
   \<and> index2word (build_vocab 1 [CHR 0x00]) = [null_word, null_word]
   \<and> vocab (build_vocab 1 [CHR 0x00]) = [(null_word, \<lparr>idx = 1, count = 1\<rparr>)]
   \<and> \<not> distinct (index2word (build_vocab 1 [CHR 0x00]))
   \<and> set (map (idx \<circ> snd) (vocab (build_vocab 1 [CHR 0x00])))
         \<noteq> {..<vocab_size (build_vocab 1 [CHR 0x00])}"
  by (simp add: build_vocab_eval_defs) (auto simp: lessThan_def)



text \<open>
  Claim C9, as amended. With \<open>min_count\<close> at least 2 (the default is 2), the empty corpus
  gives a vocabulary of size 1 that holds only the null word, at index 0 with count 1.
  \<open>build_vocab\<close> has no failing branch: it returns on every corpus.
\<close>

theorem build_vocab_empty_corpus:
  assumes "2 \<le> min_cnt"
  shows "vocab_size (build_vocab min_cnt []) = 1
       \<and> index2word (build_vocab min_cnt []) = [null_word]
       \<and> vocab (build_vocab min_cnt []) = [(null_word, \<lparr>idx = 0, count = 1\<rparr>)]
       \<and> cum_table (build_vocab min_cnt []) = [cum_table_domain]
       \<and> num_sentences (build_vocab min_cnt []) = 1"
  using assms
  by (simp add: build_vocab_eval_defs make_cum_table_def train_words_pow_of_def cum_step_def)

theorem build_vocab_empty_corpus_witness:
  "(2::nat) \<le> 2 \<and> vocab_size (build_vocab 2 []) = 1
   \<and> index2word (build_vocab 2 []) = [null_word]"
proof -
  have h: "(2::nat) \<le> 2" by simp
  show ?thesis using h build_vocab_empty_corpus[OF h] by simp
qed

text \<open>
  Claim C9 as stated fails when \<open>min_count\<close> is 1: the empty corpus splits into one
  sentence with one token, the empty string, which is kept, so the vocabulary has size 2.
\<close>

theorem build_vocab_empty_corpus_counterexample:
  "vocab_size (build_vocab 1 []) = 2
   \<and> index2word (build_vocab 1 []) = [null_word, []]
   \<and> vocab_size (build_vocab 1 []) \<noteq> 1"
  by (simp add: build_vocab_eval_defs)

section \<open>Properties of the training step\<close>

subsection \<open>The binary search\<close>

lemma bSearch_loop_bound:
  assumes "xs \<noteq> []" "x \<le> real_of_int (last xs)" "lo < length xs" "hi \<le> length xs"
  shows "bSearch_loop xs x lo hi < length xs"
  using assms
proof (induction xs x lo hi rule: bSearch_loop.induct)
  case (1 xs x lo hi)
  show ?case
  proof (cases "lo < hi")
    case False
    then show ?thesis using "1.prems" by (subst bSearch_loop.simps) simp
  next
    case True
    let ?mid = "(lo + hi) div 2"
    let ?c = "real_of_int (xs ! ?mid) - x"
    have mid: "lo \<le> ?mid" "?mid < hi" using True by auto
    show ?thesis
    proof (cases "?c = 0")
      case c0: True
      then show ?thesis using True mid "1.prems" by (subst bSearch_loop.simps) (simp add: Let_def)
    next
      case cn: False
      have lo': "(if ?c < 0 then ?mid + 1 else lo) < length xs"
      proof (cases "?c < 0")
        case False
        then show ?thesis using "1.prems" by simp
      next
        case neg: True
        have "?mid \<noteq> length xs - 1"
        proof
          assume "?mid = length xs - 1"
          then have "xs ! ?mid = last xs" using "1.prems"(1) by (simp add: last_conv_nth)
          then show False using neg "1.prems"(2) by simp
        qed
        then show ?thesis using neg mid "1.prems"(4) by simp
      qed
      have hi': "(if 0 < ?c then ?mid else hi) \<le> length xs"
        using mid "1.prems"(4) by simp
      have "bSearch_loop xs x (if ?c < 0 then ?mid + 1 else lo) (if 0 < ?c then ?mid else hi) < length xs"
        using "1.IH"[OF True refl refl cn "1.prems"(1,2) lo' hi'] .
      then show ?thesis using True cn by (subst bSearch_loop.simps) (simp add: Let_def)
    qed
  qed
qed

lemma bSearch_bound:
  assumes "xs \<noteq> []" "x \<le> real_of_int (last xs)"
  shows "bSearch xs x < length xs"
proof -
  have l: "xs ! (length xs - 1) = last xs" using assms(1) by (simp add: last_conv_nth)
  have n: "0 < length xs" using assms(1) by simp
  have "bSearch xs x = (if x < real_of_int (xs ! 0) then 0 else bSearch_loop xs x 0 (length xs))"
    unfolding bSearch_def l using assms by simp
  then show ?thesis
    using n bSearch_loop_bound[OF assms n, of "length xs"] by simp
qed

subsection \<open>The loop over the draws\<close>

lemma neg_loop_updates:
  "neg_loop m w_idx l1 ds (s, pos) =
     (case fold_err (\<lambda>s (t, label). update_pair m l1 t label s) s (loop_updates m w_idx ds pos) of
        Inl e \<Rightarrow> Inl e
      | Inr s1 \<Rightarrow> Inr (s1, loop_draws m ds pos))"
proof (induction ds arbitrary: s pos)
  case Nil
  then show ?case by simp
next
  case (Cons d ds)
  show ?case
  proof (cases "d = 0")
    case True
    then show ?thesis using Cons.IH by (simp split: sum.splits)
  next
    case False
    obtain target pos1 where dr: "draw_negative m pos = (target, pos1)"
      by (cases "draw_negative m pos")
    show ?thesis using False dr Cons.IH by (simp split: sum.splits)
  qed
qed

lemma draw_negative_range:
  assumes "2 \<le> vocab_size m" "0 \<le> rnd m (pos + 1)"
  shows "\<exists>k. fst (draw_negative m pos) = Some k \<and> 1 \<le> k
           \<and> (bSearch (cum_table m) (rnd m pos * real_of_int cum_table_domain) = 0
                \<longrightarrow> k = nat \<lfloor>rnd m (pos + 1) * real_of_int cum_table_domain\<rfloor> mod (vocab_size m - 1) + 1
                    \<and> k \<le> vocab_size m - 1)
           \<and> (bSearch (cum_table m) (rnd m pos * real_of_int cum_table_domain) \<noteq> 0
                \<longrightarrow> k = bSearch (cum_table m) (rnd m pos * real_of_int cum_table_domain))"
proof (cases "bSearch (cum_table m) (rnd m pos * real_of_int cum_table_domain) = 0")
  case False
  then show ?thesis by (simp add: draw_negative_def Let_def)
next
  case True
  let ?a = "\<lfloor>rnd m (pos + 1) * real_of_int cum_table_domain\<rfloor>"
  let ?n = "int (vocab_size m) - 1"
  have a: "0 \<le> ?a" using assms(2) by (simp add: cum_table_domain_def)
  have n: "0 < ?n" using assms(1) by simp
  have sg: "sgn ?a * (\<bar>?a\<bar> mod \<bar>?n\<bar>) = ?a mod ?n"
  proof (cases "?a = 0")
    case True
    then show ?thesis by simp
  next
    case False
    then have "0 < ?a" using a by linarith
    then show ?thesis using n by simp
  qed
  have r: "js_rem ?a ?n = Some (?a mod ?n)"
    using n sg by (simp add: js_rem_def)
  have m0: "0 \<le> ?a mod ?n" "?a mod ?n < ?n" using n by simp_all
  have nn: "nat ?n = vocab_size m - 1" using assms(1) by simp
  have "nat (?a mod ?n + 1) = nat (?a mod ?n) + 1"
    using m0 by (simp add: nat_add_distrib)
  also have "nat (?a mod ?n) = nat ?a mod nat ?n"
    using a n by (simp add: nat_mod_distrib)
  finally have k: "nat (?a mod ?n + 1) = nat ?a mod (vocab_size m - 1) + 1"
    using nn by simp
  have "nat ?a mod (vocab_size m - 1) < vocab_size m - 1"
    using assms(1) by simp
  then show ?thesis
    using True r k by (simp add: draw_negative_def Let_def)
qed

subsection \<open>Updates with a zero hidden vector\<close>

lemma is_fin_conv: "is_fin x = (\<exists>a. x = Fin a)"
  by (cases x) simp_all

lemma finite_row_map:
  assumes "list_all is_fin row"
  shows "\<exists>xs. row = map Fin xs"
  using assms
proof (induction row)
  case Nil
  then show ?case by simp
next
  case (Cons x row)
  then obtain xs where "row = map Fin xs" by auto
  moreover obtain a where "x = Fin a" using Cons.prems by (auto simp: is_fin_conv)
  ultimately have "x # row = map Fin (a # xs)" by simp
  then show ?case by (rule exI)
qed

lemma dot_zero:
  assumes "k \<le> length xs" "k \<le> hs"
  shows "foldl (\<lambda>f j. js_add f (js_mul (num_at (replicate hs (Fin 0)) j) (num_at (map Fin xs) j)))
           (Fin 0) [0..<k] = Fin 0"
  using assms
proof (induction k)
  case 0
  then show ?case by simp
next
  case (Suc k)
  then show ?case by (simp add: num_at_def)
qed


lemma add_scaled_zero:
  assumes "length xs = hs"
  shows "add_scaled hs (map Fin xs) (Fin g) (replicate hs (Fin 0)) = map Fin xs"
proof -
  have "map (\<lambda>j. js_add (num_at (map Fin xs) j) (js_mul (Fin g) (num_at (replicate hs (Fin 0)) j))) [0..<hs]
        = map (\<lambda>j. map Fin xs ! j) [0..<hs]"
    using assms by (intro map_cong) (simp_all add: num_at_def)
  also have "\<dots> = map Fin xs"
    using assms map_nth[of "map Fin xs"] by simp
  finally show ?thesis using assms by (simp add: add_scaled_def)
qed

lemma finite_matrix_row:
  assumes "finite_matrix hs mat" "t < length mat"
  shows "\<exists>xs. mat ! t = map Fin xs \<and> length xs = hs"
proof -
  have "length (mat ! t) = hs \<and> list_all is_fin (mat ! t)"
    using assms by (simp add: finite_matrix_def list_all_length)
  then show ?thesis using finite_row_map[of "mat ! t"] by auto
qed

lemma update_pair_zero:
  assumes "finite_matrix (hidden_size (config m)) s1" "learning_rate m = Fin lr" "t < length s1"
  shows "\<exists>n1. update_pair m (replicate (hidden_size (config m)) (Fin 0)) (Some t) label (s1, n)
               = Inr (s1, n1)"
proof -
  let ?hs = "hidden_size (config m)"
  obtain xs where xs: "s1 ! t = map Fin xs" "length xs = ?hs"
    using finite_matrix_row[OF assms(1,3)] by auto
  have d: "dot ?hs (replicate ?hs (Fin 0)) (map Fin xs) = Fin 0"
    using dot_zero[of ?hs xs ?hs] xs(2) by (simp add: dot_def)
  have "s1[t := map Fin xs] = s1" using xs(1) list_update_id[of s1 t] by simp
  then show ?thesis
    using assms(2,3) xs d
    by (simp add: update_pair_def get_row_def Let_def js_sub_def add_scaled_zero)
qed

lemma update_pair_zero_keeps:
  assumes "finite_matrix (hidden_size (config m)) s1" "learning_rate m = Fin lr"
    and "update_pair m (replicate (hidden_size (config m)) (Fin 0)) target label (s1, n) = Inr (s2, n2)"
  shows "s2 = s1"
proof (cases target)
  case None
  then show ?thesis using assms(3) by (simp add: update_pair_def Let_def split: if_splits)
next
  case (Some t)
  show ?thesis
  proof (cases "t < length s1")
    case True
    then show ?thesis using update_pair_zero[OF assms(1,2) True, of label n] assms(3) Some by auto
  next
    case False
    then show ?thesis using assms(3) Some
      by (auto simp: update_pair_def get_row_def Let_def list_update_beyond split: if_splits)
  qed
qed

lemma neg_loop_zero_keeps:
  assumes "finite_matrix (hidden_size (config m)) s1" "learning_rate m = Fin lr"
    and "neg_loop m w_idx (replicate (hidden_size (config m)) (Fin 0)) ds ((s1, n), pos)
           = Inr ((s2, n2), pos2)"
  shows "s2 = s1"
  using assms(3)
proof (induction ds arbitrary: n pos)
  case Nil
  then show ?case by simp
next
  case (Cons d ds)
  let ?z = "replicate (hidden_size (config m)) (Fin 0)"
  show ?case
  proof (cases "d = 0")
    case True
    then obtain sa na where u: "update_pair m ?z (Some w_idx) 1 (s1, n) = Inr (sa, na)"
      using Cons.prems by (auto split: sum.splits)
    have "sa = s1" using update_pair_zero_keeps[OF assms(1,2) u] .
    then show ?thesis using Cons.prems Cons.IH True u by simp
  next
    case False
    obtain target pos1 where dr: "draw_negative m pos = (target, pos1)"
      by (cases "draw_negative m pos")
    show ?thesis
    proof (cases "target = Some w_idx")
      case True
      then show ?thesis using Cons.prems Cons.IH False dr by simp
    next
      case ne: False
      then obtain sa na where u: "update_pair m ?z target 0 (s1, n) = Inr (sa, na)"
        using Cons.prems False dr by (auto split: sum.splits)
      have "sa = s1" using update_pair_zero_keeps[OF assms(1,2) u] .
      then show ?thesis using Cons.prems Cons.IH False dr ne u by simp
    qed
  qed
qed

lemma bSearch_table:
  assumes "table_ok m" "0 \<le> u" "u < 1"
  shows "bSearch (cum_table m) (u * real_of_int cum_table_domain) < vocab_size m"
proof -
  have "u * real_of_int cum_table_domain \<le> 1 * real_of_int cum_table_domain"
    using assms(3) by (intro mult_right_mono) (simp_all add: cum_table_domain_def)
  then have "u * real_of_int cum_table_domain \<le> real_of_int (last (cum_table m))"
    using assms(1) by (simp add: table_ok_def)
  then show ?thesis
    using bSearch_bound[of "cum_table m" "u * real_of_int cum_table_domain"] assms(1)
    by (simp add: table_ok_def)
qed

lemma draw_negative_in_range:
  assumes "2 \<le> vocab_size m" "rnd_ok m" "table_ok m"
  shows "\<exists>k. fst (draw_negative m pos) = Some k \<and> 1 \<le> k \<and> k < vocab_size m"
proof -
  have r: "0 \<le> rnd m (pos + 1)" "0 \<le> rnd m pos" "rnd m pos < 1"
    using assms(2) by (simp_all add: rnd_ok_def)
  obtain k where k: "fst (draw_negative m pos) = Some k" "1 \<le> k"
    "bSearch (cum_table m) (rnd m pos * real_of_int cum_table_domain) = 0 \<longrightarrow> k \<le> vocab_size m - 1"
    "bSearch (cum_table m) (rnd m pos * real_of_int cum_table_domain) \<noteq> 0
       \<longrightarrow> k = bSearch (cum_table m) (rnd m pos * real_of_int cum_table_domain)"
    using draw_negative_range[OF assms(1) r(1)] by auto
  have "k < vocab_size m"
    using k(3,4) bSearch_table[OF assms(3) r(2,3)] assms(1) by (cases "bSearch (cum_table m) (rnd m pos * real_of_int cum_table_domain) = 0") auto
  then show ?thesis using k(1,2) by blast
qed



subsection \<open>The updates of the loop\<close>

lemma loop_updates_negatives:
  assumes "2 \<le> vocab_size m" "\<forall>n. 0 \<le> rnd m n" "0 \<notin> set ds"
  shows "(\<forall>p\<in>set (loop_updates m w_idx ds pos).
            snd p = 0 \<and> (\<exists>k. fst p = Some k \<and> 1 \<le> k \<and> k \<noteq> w_idx))
       \<and> length (loop_updates m w_idx ds pos) \<le> length ds"
  using assms(3)
proof (induction ds arbitrary: pos)
  case Nil
  then show ?case by simp
next
  case (Cons d ds)
  obtain target pos1 where dr: "draw_negative m pos = (target, pos1)"
    by (cases "draw_negative m pos")
  have r: "0 \<le> rnd m (pos + 1)" using assms(2) by simp
  obtain k where k: "target = Some k" "1 \<le> k"
    using draw_negative_range[OF assms(1) r] dr by auto
  have d: "d \<noteq> 0" "0 \<notin> set ds" using Cons.prems by auto
  show ?case
  proof (cases "target = Some w_idx")
    case True
    then show ?thesis using Cons.IH[OF d(2), of pos1] d(1) dr by (simp add: le_SucI)
  next
    case False
    then show ?thesis using Cons.IH[OF d(2), of pos1] d(1) dr k by auto
  qed
qed

lemma loop_updates_in_range:
  assumes "2 \<le> vocab_size m" "rnd_ok m" "table_ok m" "0 \<notin> set ds"
  shows "\<forall>p\<in>set (loop_updates m w_idx ds pos). \<exists>k. fst p = Some k \<and> k < vocab_size m"
  using assms(4)
proof (induction ds arbitrary: pos)
  case Nil
  then show ?case by simp
next
  case (Cons d ds)
  obtain target pos1 where dr: "draw_negative m pos = (target, pos1)"
    by (cases "draw_negative m pos")
  obtain k where k: "target = Some k" "k < vocab_size m"
    using draw_negative_in_range[OF assms(1,2,3), of pos] dr by auto
  have d: "d \<noteq> 0" "0 \<notin> set ds" using Cons.prems by auto
  show ?case
    using Cons.IH[OF d(2), of pos1] d(1) dr k by (cases "target = Some w_idx") auto
qed

lemma loop_updates_two_words:
  assumes "vocab_size m = 2" "rnd_ok m" "table_ok m" "0 \<notin> set ds"
  shows "loop_updates m 1 ds pos = []"
  using assms(4)
proof (induction ds arbitrary: pos)
  case Nil
  then show ?case by simp
next
  case (Cons d ds)
  obtain target pos1 where dr: "draw_negative m pos = (target, pos1)"
    by (cases "draw_negative m pos")
  have v: "2 \<le> vocab_size m" using assms(1) by simp
  obtain k where k: "target = Some k" "1 \<le> k" "k < vocab_size m"
    using draw_negative_in_range[OF v assms(2,3), of pos] dr by auto
  then have "target = Some 1" using assms(1) by simp
  moreover have d: "d \<noteq> 0" "0 \<notin> set ds" using Cons.prems by auto
  ultimately show ?case using Cons.IH[OF d(2), of pos1] dr by simp
qed

lemma upt_from_zero: "[0..<n + 1] = 0 # [1..<n + 1]"
  by (simp add: upt_rec)

lemma neg_loop_from_zero:
  "neg_loop m w_idx l1 (0 # ds) (s, pos) =
     (case fold_err (\<lambda>s (t, label). update_pair m l1 t label s) s
             ((Some w_idx, 1) # loop_updates m w_idx ds pos) of
        Inl e \<Rightarrow> Inl e
      | Inr s1 \<Rightarrow> Inr (s1, loop_draws m ds pos))"
  by (simp add: neg_loop_updates split: sum.splits)

subsection \<open>The example model\<close>

lemma toy_vocab:
  "vocab toy = vocab (build_vocab 1 ''a b'') \<and> index2word toy = index2word (build_vocab 1 ''a b'')
   \<and> vocab_size toy = vocab_size (build_vocab 1 ''a b'')
   \<and> sentences toy = sentences (build_vocab 1 ''a b'')"
  by (simp add: toy_def build_vocab_eval_defs)

lemma toy_table: "cum_table toy = cum_table (build_vocab 1 ''a b'')"
  by (simp add: toy_def build_vocab_eval_defs make_cum_table_def train_words_pow_of_def cum_step_def
      power_def cum_table_domain_def round_def)

lemma toy_draw: "draw_negative toy pos = (Some 1, pos + 2)"
  by (simp add: toy_def draw_negative_def bSearch_def js_rem_def cum_table_domain_def)

lemma toy_ctx: "word2_indices_of toy [''a'', ''b''] 0 = [1]"
  by (simp add: toy_def word2_indices_of_def words_reduced_window_of_def window_start_def
      reduced_window_of_def upt_rec)


lemma toy_sel:
  "hidden_size (config toy) = 1" "learning_rate toy = Fin 1"
  "negative (config toy) = 2" "syn1 toy = [[Fin 0], [Fin 1], [Fin 1]]"
  "syn0 toy = [[Fin 0], [Fin 0], [Fin 1]]" "rnd_pos toy = 0" "sg (config toy) = False"
  "cbow_mean (config toy) = True" "queries_watched toy = []"
  "vocab toy = [(''a'', \<lparr>idx = 1, count = 1\<rparr>), (''b'', \<lparr>idx = 2, count = 1\<rparr>),
                   (null_word, \<lparr>idx = 0, count = 1\<rparr>)]"
  by (simp_all add: toy_def)

lemma toy_ds: "[1..<negative (config toy) + 1] = [1, 2]"
  unfolding toy_sel(3) by (simp add: upt_rec)

lemma toy_updates2: "loop_updates toy 2 [1..<negative (config toy) + 1] 0 = [(Some 1, 0), (Some 1, 0)]"
  unfolding toy_ds by (simp add: toy_draw)

lemma toy_updates1: "loop_updates toy 1 [1..<negative (config toy) + 1] 0 = []"
  unfolding toy_ds by (simp add: toy_draw)

lemma toy_draw1: "draw_negative (toy\<lparr>rnd_pos := p\<rparr>) pos = (Some 1, pos + 2)"
  by (simp add: toy_def draw_negative_def bSearch_def js_rem_def cum_table_domain_def)

lemma toy_update:
  "update_pair (toy\<lparr>rnd_pos := p\<rparr>) [Fin 0] (Some 1) 1 ([[Fin 0], [Fin 1], [Fin 1]], [Fin 0])
     = Inr ([[Fin 0], [Fin 1], [Fin 1]], [Fin (1/2)])"
  by (simp add: update_pair_def toy_sel get_row_def dot_def add_scaled_def js_sub_def num_at_def Let_def)

lemma toy_neg_loop:
  "neg_loop (toy\<lparr>rnd_pos := p\<rparr>) 1 [Fin 0] [0..<3] (([[Fin 0], [Fin 1], [Fin 1]], [Fin 0]), 1)
     = Inr (([[Fin 0], [Fin 1], [Fin 1]], [Fin (1/2)]), 5)"
  using toy_update[of p] by (simp add: upt_rec toy_draw1)

lemma toy_cbow_pair:
  "train_cbow_pair (toy\<lparr>rnd_pos := 1\<rparr>) 1 [1] [Fin 0]
     = Inr (toy\<lparr>rnd_pos := 1, syn1 := [[Fin 0], [Fin 1], [Fin 1]], rnd_pos := 5,
                 syn0 := [[Fin 0], [Fin (1/2)], [Fin 1]]\<rparr>)"
  using toy_neg_loop[of 1]
  by (simp add: train_cbow_pair_def toy_sel get_row_def add_vec_def num_at_def Let_def)

lemma toy_l1: "cbow_l1 (toy\<lparr>rnd_pos := 1\<rparr>) [1] = Inr [Fin 0]"
  by (simp add: toy_sel cbow_l1_def get_row_def add_vec_def div_vec_def num_at_def Let_def)

lemma toy_ok: "rnd_ok toy" "table_ok toy" "2 \<le> vocab_size toy"
  "finite_matrix (hidden_size (config toy)) (syn1 toy)" "length (syn1 toy) = vocab_size toy"
  by (simp_all add: toy_def rnd_ok_def table_ok_def finite_matrix_def cum_table_domain_def)

lemma toy_cum_table: "cum_table toy = [715827882, 1431655765, 2147483647]"
  by (simp add: toy_def)

lemma toy_bSearch: "bSearch (cum_table toy) (1 / 2 * real_of_int cum_table_domain) = 1"
  unfolding toy_cum_table
  by (simp add: bSearch_def cum_table_domain_def bSearch_loop.simps Let_def)

subsection \<open>The claims about training\<close>

text \<open>
  Claim C10. For a random number \<open>u\<close> in \<open>[0, 1)\<close> and a table that is not empty and ends
  with \<open>2^31 - 1\<close>, \<open>bSearch\<close> on \<open>u * (2^31 - 1)\<close> returns an index below the length of
  the table: its result \<open>xs.length\<close> is not reached. That holds for the table of
  \<open>build_vocab\<close> on every corpus, where the length is \<open>vocab_size\<close>; and when \<open>syn1\<close> has
  \<open>vocab_size\<close> rows, the row of the index exists.
\<close>

theorem bSearch_in_bounds:
  assumes "0 \<le> u" "u < 1"
  shows "(ct \<noteq> [] \<and> last ct = cum_table_domain
            \<longrightarrow> bSearch ct (u * real_of_int cum_table_domain) < length ct)
       \<and> bSearch (cum_table (build_vocab min_cnt corpus)) (u * real_of_int cum_table_domain)
           < vocab_size (build_vocab min_cnt corpus)
       \<and> (table_ok m \<and> length (syn1 m) = vocab_size m
            \<longrightarrow> get_row (hidden_size (config m)) (syn1 m)
                  (bSearch (cum_table m) (u * real_of_int cum_table_domain))
                = Inr (syn1 m ! bSearch (cum_table m) (u * real_of_int cum_table_domain)))"
proof -
  have le: "u * real_of_int cum_table_domain \<le> real_of_int cum_table_domain"
    using assms(2) mult_right_mono[of u 1 "real_of_int cum_table_domain"]
    by (simp add: cum_table_domain_def)
  have A: "ct \<noteq> [] \<and> last ct = cum_table_domain
            \<longrightarrow> bSearch ct (u * real_of_int cum_table_domain) < length ct"
    using le bSearch_bound[of ct "u * real_of_int cum_table_domain"] by simp
  let ?r = "build_vocab min_cnt corpus"
  have T: "cum_table ?r \<noteq> []" "last (cum_table ?r) = cum_table_domain"
    "length (cum_table ?r) = vocab_size ?r"
    using build_vocab_cum_table[of min_cnt corpus] by (auto simp: Let_def)
  have B: "bSearch (cum_table ?r) (u * real_of_int cum_table_domain) < vocab_size ?r"
    using le T bSearch_bound[of "cum_table ?r" "u * real_of_int cum_table_domain"] by simp
  have C: "table_ok m \<and> length (syn1 m) = vocab_size m
            \<longrightarrow> get_row (hidden_size (config m)) (syn1 m)
                  (bSearch (cum_table m) (u * real_of_int cum_table_domain))
                = Inr (syn1 m ! bSearch (cum_table m) (u * real_of_int cum_table_domain))"
    using bSearch_table[OF _ assms, of m] by (simp add: get_row_def)
  show ?thesis by (intro conjI A B C)
qed

text \<open>The theorem at \<open>u = 1/2\<close> and the table of the example model, where the search returns 1.\<close>

theorem bSearch_in_bounds_witness:
  "(0::real) \<le> 1 / 2 \<and> (1 / 2 :: real) < 1
   \<and> cum_table toy \<noteq> [] \<and> last (cum_table toy) = cum_table_domain
   \<and> bSearch (cum_table toy) (1 / 2 * real_of_int cum_table_domain) = 1
   \<and> bSearch (cum_table toy) (1 / 2 * real_of_int cum_table_domain) < length (cum_table toy)"
proof -
  have h: "(0::real) \<le> 1 / 2" "(1 / 2 :: real) < 1" by simp_all
  have t: "cum_table toy \<noteq> [] \<and> last (cum_table toy) = cum_table_domain"
    by (simp add: toy_def cum_table_domain_def)
  show ?thesis
    using h t toy_bSearch bSearch_in_bounds[OF h, of "cum_table toy" 1 "[]" toy] by simp
qed

text \<open>
  Claim C3. With at least two words in the vocabulary and random numbers in \<open>[0, 1)\<close>:
  a draw gives an index of at least 1; when the lookup in the table gives 0, the index is
  the second random number, scaled and floored, modulo \<open>vocab_size - 1\<close>, plus 1, which
  is at most \<open>vocab_size - 1\<close>; otherwise it is the index of the lookup. A draw equal to
  the index of the true target makes no update, and the loop goes on with the next \<open>d\<close>.
  The loop of \<open>train_sg_pair\<close> and of \<open>train_cbow_pair\<close> is the sequence of the updates
  for the true target with label 1 and for the accepted draws with label 0; no accepted
  draw is 0 or the true target, and there are at most \<open>negative\<close> of them. With two words
  in the vocabulary and the true target 1 there is none.
\<close>

theorem negative_sampling_targets:
  assumes "2 \<le> vocab_size m" and "rnd_ok m"
  shows "(\<exists>k. fst (draw_negative m pos) = Some k \<and> 1 \<le> k
            \<and> (bSearch (cum_table m) (rnd m pos * real_of_int cum_table_domain) = 0
                 \<longrightarrow> k = nat \<lfloor>rnd m (pos + 1) * real_of_int cum_table_domain\<rfloor>
                            mod (vocab_size m - 1) + 1
                     \<and> k \<le> vocab_size m - 1)
            \<and> (bSearch (cum_table m) (rnd m pos * real_of_int cum_table_domain) \<noteq> 0
                 \<longrightarrow> k = bSearch (cum_table m) (rnd m pos * real_of_int cum_table_domain)))
       \<and> (d \<noteq> 0 \<and> fst (draw_negative m pos) = Some w_idx \<longrightarrow>
            neg_loop m w_idx l1 (d # ds) (s, pos)
              = neg_loop m w_idx l1 ds (s, snd (draw_negative m pos)))
       \<and> neg_loop m w_idx l1 [0..<negative (config m) + 1] (s, pos) =
            (case fold_err (\<lambda>s (t, label). update_pair m l1 t label s) s
                    ((Some w_idx, 1) # loop_updates m w_idx [1..<negative (config m) + 1] pos) of
               Inl e \<Rightarrow> Inl e
             | Inr s1 \<Rightarrow> Inr (s1, loop_draws m [1..<negative (config m) + 1] pos))
       \<and> (\<forall>p\<in>set (loop_updates m w_idx [1..<negative (config m) + 1] pos).
             snd p = 0 \<and> (\<exists>k. fst p = Some k \<and> 1 \<le> k \<and> k \<noteq> w_idx))
       \<and> length (loop_updates m w_idx [1..<negative (config m) + 1] pos) \<le> negative (config m)
       \<and> (table_ok m \<and> vocab_size m = 2 \<longrightarrow>
             loop_updates m 1 [1..<negative (config m) + 1] pos = [])"
proof -
  have r: "\<forall>n. 0 \<le> rnd m n" "0 \<le> rnd m (pos + 1)"
    using assms(2) by (simp_all add: rnd_ok_def)
  have z: "0 \<notin> set [1..<negative (config m) + 1]" by simp
  note A = draw_negative_range[OF assms(1) r(2)]
  have B: "d \<noteq> 0 \<and> fst (draw_negative m pos) = Some w_idx \<longrightarrow>
            neg_loop m w_idx l1 (d # ds) (s, pos)
              = neg_loop m w_idx l1 ds (s, snd (draw_negative m pos))"
    by (cases "draw_negative m pos") simp
  have C: "neg_loop m w_idx l1 [0..<negative (config m) + 1] (s, pos) =
            (case fold_err (\<lambda>s (t, label). update_pair m l1 t label s) s
                    ((Some w_idx, 1) # loop_updates m w_idx [1..<negative (config m) + 1] pos) of
               Inl e \<Rightarrow> Inl e
             | Inr s1 \<Rightarrow> Inr (s1, loop_draws m [1..<negative (config m) + 1] pos))"
    unfolding upt_from_zero by (rule neg_loop_from_zero)
  have D: "\<forall>p\<in>set (loop_updates m w_idx [1..<negative (config m) + 1] pos).
             snd p = 0 \<and> (\<exists>k. fst p = Some k \<and> 1 \<le> k \<and> k \<noteq> w_idx)"
    "length (loop_updates m w_idx [1..<negative (config m) + 1] pos) \<le> negative (config m)"
    using loop_updates_negatives[OF assms(1) r(1) z, of w_idx pos]
    unfolding length_upt by (blast, simp)
  have E: "table_ok m \<and> vocab_size m = 2 \<longrightarrow>
             loop_updates m 1 [1..<negative (config m) + 1] pos = []"
    using loop_updates_two_words[OF _ assms(2) _ z, of pos] by simp
  show ?thesis by (intro conjI A B C D E)
qed

text \<open>
  The theorem at the example model: with the true target 2 both draws give 1 and are
  accepted; with the true target 1 both are skipped, so no negative update is made though
  \<open>negative\<close> is 2.
\<close>

theorem negative_sampling_targets_witness:
  "2 \<le> vocab_size toy \<and> rnd_ok toy \<and> negative (config toy) = 2
   \<and> fst (draw_negative toy 0) = Some 1
   \<and> loop_updates toy 2 [1..<negative (config toy) + 1] 0 = [(Some 1, 0), (Some 1, 0)]
   \<and> length (loop_updates toy 2 [1..<negative (config toy) + 1] 0) \<le> negative (config toy)
   \<and> loop_updates toy 1 [1..<negative (config toy) + 1] 0 = []
   \<and> length (loop_updates toy 1 [1..<negative (config toy) + 1] 0) < negative (config toy)"
proof -
  note u1 = toy_updates1
  note T = negative_sampling_targets[OF toy_ok(3,1), of 0 1 2 "[Fin 0]" "[]" "(syn1 toy, [Fin 0])"]
  have le: "length (loop_updates toy 2 [1..<negative (config toy) + 1] 0) \<le> negative (config toy)"
    using T by (elim conjE)
  have d: "fst (draw_negative toy 0) = Some 1" by (simp add: toy_draw)
  have l0: "length (loop_updates toy 1 [1..<negative (config toy) + 1] 0) = 0"
    by (simp only: u1 list.size)
  have lt: "length (loop_updates toy 1 [1..<negative (config toy) + 1] 0) < negative (config toy)"
    using l0 toy_sel(3) by simp
  show ?thesis
    by (intro conjI toy_ok(3) toy_ok(1) toy_sel(3) d toy_updates2 le u1 lt)
qed



text \<open>
  Claim C1 fails on the code. The CBOW branch collects the positions \<open>pos2\<close> of the context
  words in the sentence, not their indices in the vocabulary, and uses them as rows of
  \<open>syn0\<close>. In the example model, for the first word of the sentence \<open>a b\<close>: the context is
  the word \<open>b\<close>, at position 1 and with index 2; the hidden vector is row 1 of \<open>syn0\<close>, which
  is the vector of \<open>a\<close>, and the error vector is added to row 1, while row 2 stays as it was.
\<close>

theorem cbow_context_positions:
  "word2_indices_of toy [''a'', ''b''] 0 = [1]
   \<and> vocab_idx (vocab toy) ''b'' = Inr 2
   \<and> vocab_idx (vocab toy) ''a'' = Inr 1
   \<and> syn0 toy = [[Fin 0], [Fin 0], [Fin 1]]
   \<and> cbow_l1 (toy\<lparr>rnd_pos := 1\<rparr>) (word2_indices_of toy [''a'', ''b''] 0) = Inr [Fin 0]
   \<and> (\<exists>m1. train_word [''a'', ''b''] toy 0 = Inr m1
           \<and> syn0 m1 = [[Fin 0], [Fin (1 / 2)], [Fin 1]])"
proof -
  have t: "\<exists>m1. train_word [''a'', ''b''] toy 0 = Inr m1
           \<and> syn0 m1 = [[Fin 0], [Fin (1 / 2)], [Fin 1]]"
    using toy_cbow_pair toy_l1
    by (simp add: train_word_def Let_def toy_ctx toy_sel vocab_idx_def)
  show ?thesis
    using t toy_l1 by (simp add: toy_ctx toy_sel vocab_idx_def null_word_def)
qed

section \<open>Properties of the query\<close>

subsection \<open>Sorting\<close>

lemma set_insert_by: "set (insert_by after x ys) = insert x (set ys)"
  by (induction ys) auto


lemma set_js_sort: "set (js_sort after xs) = set xs"
  by (induction xs) (simp_all add: js_sort_def set_insert_by)


lemma distinct_map_insert_by:
  "distinct (map f (insert_by after x ys)) = (f x \<notin> f ` set ys \<and> distinct (map f ys))"
  by (induction ys) (auto simp: set_insert_by)

lemma distinct_map_js_sort: "distinct (map f (js_sort after xs)) = distinct (map f xs)"
  by (induction xs) (simp_all add: js_sort_def distinct_map_insert_by set_js_sort[unfolded js_sort_def])

lemma insert_by_insort_key:
  assumes "\<And>y. y \<in> set ys \<Longrightarrow> after x y = (g y < g x)"
  shows "insert_by after x ys = insort_key (g :: 'a \<Rightarrow> 'b :: linorder) x ys"
  using assms by (induction ys) auto

lemma js_sort_sort_key_on:
  assumes "\<And>x y. x \<in> set xs \<Longrightarrow> y \<in> set xs \<Longrightarrow> after x y = (g y < g x)"
  shows "js_sort after xs = sort_key (g :: 'a \<Rightarrow> 'b :: linorder) xs"
  using assms
proof (induction xs)
  case Nil
  then show ?case by (simp add: js_sort_def)
next
  case (Cons x xs)
  have IH: "js_sort after xs = sort_key g xs" using Cons by simp
  have "insert_by after x (sort_key g xs) = insort_key g x (sort_key g xs)"
    using Cons.prems by (intro insert_by_insort_key) simp
  then show ?case using IH by (simp add: js_sort_def sort_key_def)
qed

subsection \<open>Scores\<close>






subsection \<open>History\<close>

lemma entry_update: "(e :: RankEntry)\<lparr>hist_rank := r\<rparr> = \<lparr>hist_rank = r, iteration = iteration e\<rparr>"
  by (cases e) simp

lemma update_history_same:
  assumes "h \<noteq> []" "iteration (last h) = it"
  shows "update_history (Some h) r it = butlast h @ [\<lparr>hist_rank = r, iteration = it\<rparr>]"
  using assms by (cases h) (simp_all add: update_history_def entry_update)

lemma update_history_other:
  assumes "h = [] \<or> iteration (last h) \<noteq> it"
  shows "update_history (Some h) r it = h @ [\<lparr>hist_rank = r, iteration = it\<rparr>]"
  using assms by (auto simp: update_history_def)

lemma update_history_None:
  "update_history None r it = [\<lparr>hist_rank = r, iteration = it\<rparr>]"
  by (simp add: update_history_def)

lemma update_history_last:
  "update_history rh r it \<noteq> [] \<and> last (update_history rh r it) = \<lparr>hist_rank = r, iteration = it\<rparr>"
proof (cases rh)
  case None
  then show ?thesis by (simp add: update_history_None)
next
  case (Some h)
  show ?thesis
  proof (cases "h \<noteq> [] \<and> iteration (last h) = it")
    case True
    then show ?thesis using Some update_history_same[of h it r] by simp
  next
    case False
    then show ?thesis using Some update_history_other[of h it r] by auto
  qed
qed

lemma update_history_twice:
  "update_history (Some (update_history rh r1 it)) r2 it = update_history rh r2 it"
proof -
  let ?h1 = "update_history rh r1 it"
  have l: "?h1 \<noteq> []" "iteration (last ?h1) = it"
    using update_history_last[of rh r1 it] by simp_all
  have a: "update_history (Some ?h1) r2 it = butlast ?h1 @ [\<lparr>hist_rank = r2, iteration = it\<rparr>]"
    using update_history_same[OF l] .
  show ?thesis
  proof (cases rh)
    case None
    then show ?thesis using a by (simp add: update_history_None)
  next
    case (Some h)
    show ?thesis
    proof (cases "h \<noteq> [] \<and> iteration (last h) = it")
      case True
      then show ?thesis using a Some update_history_same[of h it] by simp
    next
      case False
      then show ?thesis using a Some update_history_other[of h it] by auto
    qed
  qed
qed

lemma sorted_wrt_less_last:
  assumes "sorted_wrt (<) (xs :: nat list)" "x \<in> set xs"
  shows "x \<le> last xs"
proof -
  obtain i where i: "i < length xs" "xs ! i = x" using assms(2) by (auto simp: in_set_conv_nth)
  have ne: "xs \<noteq> []" using assms(2) by auto
  show ?thesis
  proof (cases "i = length xs - 1")
    case True
    then show ?thesis using i ne by (simp add: last_conv_nth)
  next
    case False
    then have "i < length xs - 1" using i by simp
    moreover have "length xs - 1 < length xs" using ne by simp
    ultimately have "xs ! i < xs ! (length xs - 1)"
      using assms(1) unfolding sorted_wrt_iff_nth_less by blast
    then show ?thesis using i ne by (simp add: last_conv_nth)
  qed
qed

lemma update_history_ok:
  assumes "case rh of None \<Rightarrow> True
           | Some h \<Rightarrow> sorted_wrt (<) (map iteration h) \<and> list_all (\<lambda>e. iteration e \<le> it) h"
  shows "sorted_wrt (<) (map iteration (update_history rh r it))
       \<and> list_all (\<lambda>e. iteration e \<le> it) (update_history rh r it)"
proof (cases rh)
  case None
  then show ?thesis by (simp add: update_history_None)
next
  case (Some h)
  have s: "sorted_wrt (<) (map iteration h)" and b: "list_all (\<lambda>e. iteration e \<le> it) h"
    using assms Some by simp_all
  show ?thesis
  proof (cases "h \<noteq> [] \<and> iteration (last h) = it")
    case True
    have "butlast h @ [last h] = h" using True by simp
    then have "map iteration (butlast h) @ [iteration (last h)] = map iteration h"
      by (metis list.simps(8,9) map_append)
    then have "map iteration (butlast h @ [\<lparr>hist_rank = r, iteration = it\<rparr>]) = map iteration h"
      using True by simp
    then have "sorted_wrt (<) (map iteration (butlast h @ [\<lparr>hist_rank = r, iteration = it\<rparr>]))"
      using s by simp
    moreover have "list_all (\<lambda>e. iteration e \<le> it) (butlast h)"
      using b by (metis True append_butlast_last_id list_all_append)
    ultimately show ?thesis
      using Some True update_history_same[of h it r] by simp
  next
    case False
    have lt: "\<forall>x\<in>set (map iteration h). x < it"
    proof
      fix x assume x: "x \<in> set (map iteration h)"
      then have ne: "h \<noteq> []" by auto
      have "x \<le> last (map iteration h)" using sorted_wrt_less_last[OF s x] .
      also have "last (map iteration h) = iteration (last h)" using ne by (simp add: last_map)
      also have "iteration (last h) < it"
        using False ne b by (metis (mono_tags, lifting) last_in_set le_neq_implies_less list_all_iff)
      finally show "x < it" .
    qed
    have "sorted_wrt (<) (map iteration h @ [it])"
      using s lt by (simp add: sorted_wrt_append)
    then show ?thesis
      using Some False b update_history_other[of h it r] by auto
  qed
qed

subsection \<open>Query terms\<close>



subsection \<open>Ranks to show\<close>

lemma set_uniq_from: "set (uniq_from seen xs) = set xs - set seen"
  by (induction xs arbitrary: seen) auto

lemma distinct_uniq_from: "distinct (uniq_from seen xs)"
  by (induction xs arbitrary: seen) (auto simp: set_uniq_from)

lemma ranks_to_show_facts:
  assumes "ranks_to_show_of m items qset wr = Inr ranks"
  shows "distinct ranks"
    and "\<And>r. r \<in> set ranks \<Longrightarrow> r < length items \<and> fst (items ! r) \<notin> set qset
              \<and> \<not> js_in (index2word m ! fst (items ! r)) (queries_ignored m)"
proof -
  let ?u = "uniq_fast ([0..<10] @ wr)"
  let ?f = "filter (\<lambda>r. fst (items ! r) \<notin> set qset)
              (filter (\<lambda>r. \<not> js_in (index2word m ! fst (items ! r)) (queries_ignored m)) ?u)"
  have ok: "list_all (\<lambda>r. r < length items) ?u" and r: "ranks = sort_default ?f"
    using assms by (auto simp: ranks_to_show_of_def Let_def split: if_splits)
  have "distinct (map (\<lambda>x. x) (sort_default ?f))"
    unfolding sort_default_def distinct_map_js_sort
    by (simp add: uniq_fast_def distinct_uniq_from)
  then show "distinct ranks" using r by simp
  fix x assume "x \<in> set ranks"
  then have "x \<in> set ?f" using r by (simp add: sort_default_def set_js_sort)
  then show "x < length items \<and> fst (items ! x) \<notin> set qset
              \<and> \<not> js_in (index2word m ! fst (items ! x)) (queries_ignored m)"
    using ok by (auto simp: list_all_iff)
qed

subsection \<open>The loop over the ranks\<close>

lemma record_rank_step:
  "record_rank m items (qo, out) r =
     (qo(index2word m ! fst (items ! r) \<mapsto>
         (case qo (index2word m ! fst (items ! r)) of
            None \<Rightarrow> \<lparr>query = index2word m ! fst (items ! r), status = ''NORMAL'',
                       rank = Some r,
                       rank_history = Some (update_history None r (instances m))\<rparr>
          | Some rec \<Rightarrow> rec\<lparr>rank := Some r,
                           rank_history := Some (update_history (rank_history rec) r (instances m))\<rparr>)),
      out @ [index2word m ! fst (items ! r)])"
  by (simp add: record_rank_def Let_def split: option.splits)

lemma record_rank_fresh:
  assumes "record_rank m items (qo, out) r = (qo1, out1)"
  shows "\<exists>rec. qo1 (index2word m ! fst (items ! r)) = Some rec \<and> fresh_rec (instances m) r rec"
    and "out1 = out @ [index2word m ! fst (items ! r)]"
    and "\<And>w. w \<noteq> index2word m ! fst (items ! r) \<Longrightarrow> qo1 w = qo w"
    and "(\<forall>w rec. qo w = Some rec \<longrightarrow> query rec = w) \<Longrightarrow> (\<forall>w rec. qo1 w = Some rec \<longrightarrow> query rec = w)"
    and "(\<forall>w rec. qo w = Some rec \<longrightarrow> history_ok (instances m) rec)
          \<Longrightarrow> (\<forall>w rec. qo1 w = Some rec \<longrightarrow> history_ok (instances m) rec)"
proof -
  let ?w = "index2word m ! fst (items ! r)"
  let ?it = "instances m"
  have e: "qo1 = qo(?w \<mapsto>
         (case qo ?w of
            None \<Rightarrow> \<lparr>query = ?w, status = ''NORMAL'', rank = Some r,
                       rank_history = Some (update_history None r ?it)\<rparr>
          | Some rec \<Rightarrow> rec\<lparr>rank := Some r,
                           rank_history := Some (update_history (rank_history rec) r ?it)\<rparr>))"
    and o: "out1 = out @ [?w]"
    using assms unfolding record_rank_step by simp_all
  show "out1 = out @ [?w]" by (rule o)
  show "\<exists>rec. qo1 ?w = Some rec \<and> fresh_rec ?it r rec"
    using update_history_last[where r = r and it = ?it]
    by (cases "qo ?w") (simp_all add: e fresh_rec_def)
  show "\<And>w. w \<noteq> ?w \<Longrightarrow> qo1 w = qo w" by (simp add: e)
  show "(\<forall>w rec. qo w = Some rec \<longrightarrow> query rec = w) \<Longrightarrow> (\<forall>w rec. qo1 w = Some rec \<longrightarrow> query rec = w)"
    by (cases "qo ?w") (auto simp: e)
  show "(\<forall>w rec. qo w = Some rec \<longrightarrow> history_ok ?it rec)
          \<Longrightarrow> (\<forall>w rec. qo1 w = Some rec \<longrightarrow> history_ok ?it rec)"
  proof (intro allI impI)
    fix w rec assume inv: "\<forall>w rec. qo w = Some rec \<longrightarrow> history_ok ?it rec" and q: "qo1 w = Some rec"
    show "history_ok ?it rec"
    proof (cases "w = ?w")
      case False
      then show ?thesis using inv q by (simp add: e)
    next
      case True
      show ?thesis
      proof (cases "qo ?w")
        case None
        then show ?thesis
          using q True update_history_ok[where rh = None and it = ?it and r = r]
          by (auto simp: e history_ok_def)
      next
        case (Some rec0)
        have "history_ok ?it rec0" using inv Some by blast
        then have "case rank_history rec0 of None \<Rightarrow> True
           | Some h \<Rightarrow> sorted_wrt (<) (map iteration h) \<and> list_all (\<lambda>e. iteration e \<le> ?it) h"
          by (simp add: history_ok_def)
        from update_history_ok[OF this, where r = r] show ?thesis
          using q True Some by (auto simp: e history_ok_def)
      qed
    qed
  qed
qed

subsection \<open>The result of a query\<close>

lemma record_loop:
  assumes "foldl (record_rank m items) (qo, out) ranks = (qo1, out1)"
  shows "out1 = out @ map (\<lambda>r. index2word m ! fst (items ! r)) ranks
       \<and> (\<forall>w. w \<notin> (\<lambda>r. index2word m ! fst (items ! r)) ` set ranks \<longrightarrow> qo1 w = qo w)
       \<and> (\<forall>r0\<in>set ranks. \<exists>rec r. qo1 (index2word m ! fst (items ! r0)) = Some rec \<and> r \<in> set ranks
              \<and> index2word m ! fst (items ! r) = index2word m ! fst (items ! r0)
              \<and> fresh_rec (instances m) r rec)
       \<and> ((\<forall>w rec. qo w = Some rec \<longrightarrow> query rec = w)
            \<longrightarrow> (\<forall>w rec. qo1 w = Some rec \<longrightarrow> query rec = w))
       \<and> ((\<forall>w rec. qo w = Some rec \<longrightarrow> history_ok (instances m) rec)
            \<longrightarrow> (\<forall>w rec. qo1 w = Some rec \<longrightarrow> history_ok (instances m) rec))"
  using assms
proof (induction ranks arbitrary: qo out)
  case Nil
  then show ?case by simp
next
  case (Cons r rs)
  let ?W = "\<lambda>r. index2word m ! fst (items ! r)"
  obtain qa oa where st: "record_rank m items (qo, out) r = (qa, oa)"
    by (cases "record_rank m items (qo, out) r")
  note S = record_rank_fresh[OF st]
  have f: "foldl (record_rank m items) (qa, oa) rs = (qo1, out1)"
    using Cons.prems st by simp
  note IH = Cons.IH[OF f]
  have 1: "out1 = out @ map ?W (r # rs)" using IH S(2) by simp
  have 2: "\<forall>w. w \<notin> ?W ` set (r # rs) \<longrightarrow> qo1 w = qo w"
    using IH S(3) by auto
  have 3: "\<forall>r0\<in>set (r # rs). \<exists>rec r'. qo1 (?W r0) = Some rec \<and> r' \<in> set (r # rs)
              \<and> ?W r' = ?W r0 \<and> fresh_rec (instances m) r' rec"
  proof
    fix r0 assume r0: "r0 \<in> set (r # rs)"
    show "\<exists>rec r'. qo1 (?W r0) = Some rec \<and> r' \<in> set (r # rs)
              \<and> ?W r' = ?W r0 \<and> fresh_rec (instances m) r' rec"
    proof (cases "?W r0 \<in> ?W ` set rs")
      case True
      then obtain r1 where r1: "r1 \<in> set rs" "?W r1 = ?W r0" by auto
      then obtain rec r' where "qo1 (?W r1) = Some rec" "r' \<in> set rs" "?W r' = ?W r1"
        "fresh_rec (instances m) r' rec" using IH by blast
      then show ?thesis using r1 by auto
    next
      case False
      then have e: "r0 = r \<or> ?W r0 = ?W r" "qo1 (?W r0) = qa (?W r0)"
        using r0 IH by auto
      then have "?W r0 = ?W r" by auto
      then show ?thesis using S(1) e(2) by auto
    qed
  qed
  have 4: "(\<forall>w rec. qo w = Some rec \<longrightarrow> query rec = w)
            \<longrightarrow> (\<forall>w rec. qo1 w = Some rec \<longrightarrow> query rec = w)"
    using IH S(4) by blast
  have 5: "(\<forall>w rec. qo w = Some rec \<longrightarrow> history_ok (instances m) rec)
            \<longrightarrow> (\<forall>w rec. qo1 w = Some rec \<longrightarrow> history_ok (instances m) rec)"
    using IH S(5) by blast
  show ?case by (intro conjI 1 2 3 4 5)
qed

lemma compute_query_result_cases:
  assumes "query_in m \<noteq> []" "compute_query_result m = Inr m1"
  shows "\<exists>qv0 qset scores wr ranks.
      query_terms m = Inr (qv0, qset)
    \<and> all_scores m (normalize (hidden_size (config m)) qv0) qset = Inr scores
    \<and> watched_ranks m (rank_lookup_of m (sort_items scores)) qset = Inr wr
    \<and> ranks_to_show_of m (sort_items scores) qset wr = Inr ranks
    \<and> (ranks = [] \<longrightarrow> query_out_records m1 = [] \<and> qo_map m1 = qo_map m)
    \<and> (ranks \<noteq> [] \<longrightarrow> (\<exists>qo qo1 out. qo_map m (qi_key m) = Some qo
          \<and> foldl (record_rank m (sort_items scores)) (qo, []) ranks = (qo1, out)
          \<and> qo_map m1 = (qo_map m)(qi_key m \<mapsto> qo1)
          \<and> query_out_records m1 = js_sort rank_after (List.map_filter qo1 out)))"
proof -
  obtain qv0 qset where qt: "query_terms m = Inr (qv0, qset)"
    using assms by (cases "query_terms m") (auto simp: compute_query_result_def)
  let ?qv = "normalize (hidden_size (config m)) qv0"
  have c1: "(case all_scores m ?qv qset of
                Inl e \<Rightarrow> Inl e
              | Inr scores \<Rightarrow>
                  (let item_scores = sort_items scores in
                   case watched_ranks m (rank_lookup_of m item_scores) qset of
                     Inl e \<Rightarrow> Inl e
                   | Inr wr \<Rightarrow>
                       (case ranks_to_show_of m item_scores qset wr of
                          Inl e \<Rightarrow> Inl e
                        | Inr ranks_to_show \<Rightarrow>
                            if ranks_to_show = []
                            then Inr (m\<lparr>query_out_records := [], qi_vec := ?qv\<rparr>)
                            else (case qo_map m (qi_key m) of
                                    None \<Rightarrow> Inl TypeError
                                  | Some qo_lookup \<Rightarrow>
                                      (let (qo1, out) =
                                             foldl (record_rank m item_scores) (qo_lookup, [])
                                               ranks_to_show
                                       in Inr (m\<lparr>qo_map := (qo_map m)(qi_key m \<mapsto> qo1),
                                                 query_out_records :=
                                                   js_sort rank_after (List.map_filter qo1 out),
                                                 qi_vec := ?qv\<rparr>)))))) = Inr m1"
    using assms qt by (simp add: compute_query_result_def Let_def)
  obtain scores where sc: "all_scores m ?qv qset = Inr scores"
    using c1 by (cases "all_scores m ?qv qset") auto
  let ?items = "sort_items scores"
  obtain wr where wr: "watched_ranks m (rank_lookup_of m ?items) qset = Inr wr"
    using c1 sc by (cases "watched_ranks m (rank_lookup_of m ?items) qset") (auto simp: Let_def)
  obtain ranks where rk: "ranks_to_show_of m ?items qset wr = Inr ranks"
    using c1 sc wr by (cases "ranks_to_show_of m ?items qset wr") (auto simp: Let_def)
  have c2: "(if ranks = []
             then Inr (m\<lparr>query_out_records := [], qi_vec := ?qv\<rparr>)
             else (case qo_map m (qi_key m) of
                     None \<Rightarrow> Inl TypeError
                   | Some qo_lookup \<Rightarrow>
                       (let (qo1, out) = foldl (record_rank m ?items) (qo_lookup, []) ranks
                        in Inr (m\<lparr>qo_map := (qo_map m)(qi_key m \<mapsto> qo1),
                                  query_out_records := js_sort rank_after (List.map_filter qo1 out),
                                  qi_vec := ?qv\<rparr>)))) = Inr m1"
    using c1 sc wr rk by (simp add: Let_def)
  have A: "ranks = [] \<longrightarrow> query_out_records m1 = [] \<and> qo_map m1 = qo_map m"
    using c2 by auto
  have B: "ranks \<noteq> [] \<longrightarrow> (\<exists>qo qo1 out. qo_map m (qi_key m) = Some qo
          \<and> foldl (record_rank m ?items) (qo, []) ranks = (qo1, out)
          \<and> qo_map m1 = (qo_map m)(qi_key m \<mapsto> qo1)
          \<and> query_out_records m1 = js_sort rank_after (List.map_filter qo1 out))"
  proof
    assume ne: "ranks \<noteq> []"
    then obtain qo where qo: "qo_map m (qi_key m) = Some qo"
      using c2 by (cases "qo_map m (qi_key m)") auto
    obtain qo1 out where fl: "foldl (record_rank m ?items) (qo, []) ranks = (qo1, out)"
      by (cases "foldl (record_rank m ?items) (qo, []) ranks")
    have "m1 = m\<lparr>qo_map := (qo_map m)(qi_key m \<mapsto> qo1),
                  query_out_records := js_sort rank_after (List.map_filter qo1 out),
                  qi_vec := ?qv\<rparr>"
      using c2 ne qo fl by simp
    then show "\<exists>qo qo1 out. qo_map m (qi_key m) = Some qo
          \<and> foldl (record_rank m ?items) (qo, []) ranks = (qo1, out)
          \<and> qo_map m1 = (qo_map m)(qi_key m \<mapsto> qo1)
          \<and> query_out_records m1 = js_sort rank_after (List.map_filter qo1 out)"
      using qo fl by auto
  qed
  show ?thesis using qt sc wr rk A B by blast
qed

lemma in_map_filter:
  "y \<in> set (List.map_filter f xs) \<Longrightarrow> \<exists>x\<in>set xs. f x = Some y"
  by (induction xs) (auto split: option.splits)

lemma rank_sort_sorted:
  assumes "\<And>x. x \<in> set xs \<Longrightarrow> rank x \<noteq> None"
  shows "js_sort rank_after xs = sort_key rank_val xs"
proof (rule js_sort_sort_key_on)
  fix x y assume "x \<in> set xs" "y \<in> set xs"
  then obtain a b where "rank x = Some a" "rank y = Some b" using assms by fastforce
  then show "rank_after x y = (rank_val y < rank_val x)"
    by (simp add: rank_after_def rank_val_def)
qed

lemma query_result_records:
  assumes "query_in m \<noteq> []" "compute_query_result m = Inr m1"
  shows "\<exists>qv0 qset scores.
      query_terms m = Inr (qv0, qset)
    \<and> all_scores m (normalize (hidden_size (config m)) qv0) qset = Inr scores
    \<and> (\<forall>rec\<in>set (query_out_records m1). \<exists>r qo1.
          r < length (sort_items scores)
        \<and> fst (sort_items scores ! r) \<notin> set qset
        \<and> \<not> js_in (index2word m ! fst (sort_items scores ! r)) (queries_ignored m)
        \<and> qo_map m1 (qi_key m) = Some qo1
        \<and> qo1 (index2word m ! fst (sort_items scores ! r)) = Some rec
        \<and> fresh_rec (instances m) r rec
        \<and> ((\<forall>qo w rec0. qo_map m (qi_key m) = Some qo \<longrightarrow> qo w = Some rec0 \<longrightarrow> query rec0 = w)
             \<longrightarrow> query rec = index2word m ! fst (sort_items scores ! r)))
    \<and> sorted (map rank_val (query_out_records m1))
    \<and> ((\<forall>qo w rec0. qo_map m (qi_key m) = Some qo \<longrightarrow> qo w = Some rec0
                \<longrightarrow> history_ok (instances m) rec0)
         \<longrightarrow> (\<forall>qo1 w rec. qo_map m1 (qi_key m) = Some qo1 \<longrightarrow> qo1 w = Some rec
                \<longrightarrow> history_ok (instances m) rec))"
proof -
  obtain qv0 qset scores wr ranks where
    qt: "query_terms m = Inr (qv0, qset)"
    and sc: "all_scores m (normalize (hidden_size (config m)) qv0) qset = Inr scores"
    and rk: "ranks_to_show_of m (sort_items scores) qset wr = Inr ranks"
    and A: "ranks = [] \<longrightarrow> query_out_records m1 = [] \<and> qo_map m1 = qo_map m"
    and B: "ranks \<noteq> [] \<longrightarrow> (\<exists>qo qo1 out. qo_map m (qi_key m) = Some qo
          \<and> foldl (record_rank m (sort_items scores)) (qo, []) ranks = (qo1, out)
          \<and> qo_map m1 = (qo_map m)(qi_key m \<mapsto> qo1)
          \<and> query_out_records m1 = js_sort rank_after (List.map_filter qo1 out))"
    using compute_query_result_cases[OF assms] by blast
  let ?items = "sort_items scores"
  let ?W = "\<lambda>r. index2word m ! fst (?items ! r)"
  let ?it = "instances m"
  let ?keyed = "\<forall>qo w rec0. qo_map m (qi_key m) = Some qo \<longrightarrow> qo w = Some rec0 \<longrightarrow> query rec0 = w"
  let ?hist = "\<forall>qo w rec0. qo_map m (qi_key m) = Some qo \<longrightarrow> qo w = Some rec0
                \<longrightarrow> history_ok ?it rec0"
  note R = ranks_to_show_facts[OF rk]
  have main: "(\<forall>rec\<in>set (query_out_records m1). \<exists>r qo1.
          r < length ?items \<and> fst (?items ! r) \<notin> set qset
        \<and> \<not> js_in (?W r) (queries_ignored m)
        \<and> qo_map m1 (qi_key m) = Some qo1 \<and> qo1 (?W r) = Some rec
        \<and> fresh_rec ?it r rec \<and> (?keyed \<longrightarrow> query rec = ?W r))
    \<and> sorted (map rank_val (query_out_records m1))
    \<and> (?hist \<longrightarrow> (\<forall>qo1 w rec. qo_map m1 (qi_key m) = Some qo1 \<longrightarrow> qo1 w = Some rec
                \<longrightarrow> history_ok ?it rec))"
  proof (cases "ranks = []")
    case True
    then show ?thesis using A by simp
  next
    case False
    then obtain qo qo1 out where qo: "qo_map m (qi_key m) = Some qo"
      and fl: "foldl (record_rank m ?items) (qo, []) ranks = (qo1, out)"
      and m1: "qo_map m1 = (qo_map m)(qi_key m \<mapsto> qo1)"
      and recs: "query_out_records m1 = js_sort rank_after (List.map_filter qo1 out)"
      using B by blast
    note L = record_loop[OF fl]
    have out: "out = map ?W ranks" using L by simp
    have lk: "qo_map m1 (qi_key m) = Some qo1" using m1 by simp
    have each: "\<And>rec. rec \<in> set (List.map_filter qo1 out) \<Longrightarrow> \<exists>r.
          r \<in> set ranks \<and> qo1 (?W r) = Some rec \<and> fresh_rec ?it r rec"
    proof -
      fix rec assume "rec \<in> set (List.map_filter qo1 out)"
      then obtain w where w: "w \<in> set out" "qo1 w = Some rec"
        using in_map_filter by fastforce
      then obtain r0 where r0: "r0 \<in> set ranks" "w = ?W r0" using out by auto
      then obtain rec' r where r: "qo1 (?W r0) = Some rec'" "r \<in> set ranks" "?W r = ?W r0"
        "fresh_rec ?it r rec'" using L by blast
      then have "rec' = rec" using w r0 by simp
      then show "\<exists>r. r \<in> set ranks \<and> qo1 (?W r) = Some rec \<and> fresh_rec ?it r rec"
        using r w r0 by auto
    qed
    have P1: "\<forall>rec\<in>set (query_out_records m1). \<exists>r qo1.
          r < length ?items \<and> fst (?items ! r) \<notin> set qset
        \<and> \<not> js_in (?W r) (queries_ignored m)
        \<and> qo_map m1 (qi_key m) = Some qo1 \<and> qo1 (?W r) = Some rec
        \<and> fresh_rec ?it r rec \<and> (?keyed \<longrightarrow> query rec = ?W r)"
    proof
      fix rec assume "rec \<in> set (query_out_records m1)"
      then have "rec \<in> set (List.map_filter qo1 out)" using recs by (simp add: set_js_sort)
      then obtain r where r: "r \<in> set ranks" "qo1 (?W r) = Some rec" "fresh_rec ?it r rec"
        using each by blast
      have k: "?keyed \<longrightarrow> query rec = ?W r"
      proof
        assume ?keyed
        then have "\<forall>w rec. qo w = Some rec \<longrightarrow> query rec = w" using qo by blast
        then have "\<forall>w rec. qo1 w = Some rec \<longrightarrow> query rec = w" using L by blast
        then show "query rec = ?W r" using r(2) by blast
      qed
      show "\<exists>r qo1. r < length ?items \<and> fst (?items ! r) \<notin> set qset
        \<and> \<not> js_in (?W r) (queries_ignored m)
        \<and> qo_map m1 (qi_key m) = Some qo1 \<and> qo1 (?W r) = Some rec
        \<and> fresh_rec ?it r rec \<and> (?keyed \<longrightarrow> query rec = ?W r)"
        using R(2)[OF r(1)] r lk k by blast
    qed
    have "\<And>x. x \<in> set (List.map_filter qo1 out) \<Longrightarrow> rank x \<noteq> None"
      using each by (fastforce simp: fresh_rec_def)
    then have "js_sort rank_after (List.map_filter qo1 out) = sort_key rank_val (List.map_filter qo1 out)"
      by (rule rank_sort_sorted)
    then have P2: "sorted (map rank_val (query_out_records m1))" using recs by simp
    have P3: "?hist \<longrightarrow> (\<forall>qo1 w rec. qo_map m1 (qi_key m) = Some qo1 \<longrightarrow> qo1 w = Some rec
                \<longrightarrow> history_ok ?it rec)"
    proof
      assume ?hist
      then have "\<forall>w rec. qo w = Some rec \<longrightarrow> history_ok ?it rec" using qo by blast
      then have "\<forall>w rec. qo1 w = Some rec \<longrightarrow> history_ok ?it rec" using L by blast
      then show "\<forall>qo1 w rec. qo_map m1 (qi_key m) = Some qo1 \<longrightarrow> qo1 w = Some rec
                \<longrightarrow> history_ok ?it rec" using lk by simp
    qed
    show ?thesis by (intro conjI P1 P2 P3)
  qed
  show ?thesis using qt sc main by blast
qed


subsection \<open>The example models\<close>

lemma t10_terms: "query_terms toy10 = Inr ([Fin 1], [1])"
  by (simp add: toy10_def query_terms_def add_query_term_def strip_minus_def vocab_idx_def
      get_row_def add_vec_def num_at_def)

lemma t10_norm: "normalize 1 [Fin 1] = [Fin 1]"
  by (simp add: normalize_def dot_def div_vec_def num_at_def)

lemma t10_sel: "hidden_size (config toy10) = 1" "vocab_size toy10 = 10"
  "syn0 toy10 = [[Fin 0], [Fin 1], [Fin (- 1)], [Fin 1], [Fin 1], [Fin 1], [Fin 1], [Fin 1],
                  [Fin 1], [Fin 0]]"
  "index2word toy10 = [null_word, ''a'', ''b'', ''c'', ''d'', ''e'', ''f'', ''g'', ''h'', ''i'']"
  "queries_watched toy10 = [''b'']" "queries_ignored toy10 = []" "instances toy10 = 0"
  "query_in toy10 = [''a'']" "qi_key toy10 = ''a''"
  by (simp_all add: toy10_def)

lemma t10_score:
  "score_of toy10 [Fin 1] [1] 0 = Inr (Fin 0)" "score_of toy10 [Fin 1] [1] 1 = Inr (Fin 0)"
  "score_of toy10 [Fin 1] [1] 2 = Inr (Fin (- 1))" "score_of toy10 [Fin 1] [1] 3 = Inr (Fin 1)"
  "score_of toy10 [Fin 1] [1] 4 = Inr (Fin 1)" "score_of toy10 [Fin 1] [1] 5 = Inr (Fin 1)"
  "score_of toy10 [Fin 1] [1] 6 = Inr (Fin 1)" "score_of toy10 [Fin 1] [1] 7 = Inr (Fin 1)"
  "score_of toy10 [Fin 1] [1] 8 = Inr (Fin 1)" "score_of toy10 [Fin 1] [1] 9 = Inr (Fin 0)"
  by (simp_all add: score_of_def t10_sel get_row_def dot_def num_at_def Let_def)

lemma upt10: "[0..<10] = [0, 1, 2, 3, 4, 5, 6, 7, 8, 9]"
  by (simp add: upt_rec)

lemma t10_scores: "all_scores toy10 [Fin 1] [1] =
    Inr [Fin 0, Fin 0, Fin (- 1), Fin 1, Fin 1, Fin 1, Fin 1, Fin 1, Fin 1, Fin 0]"
  unfolding all_scores_def t10_sel upt10 using t10_score by simp

lemma t10_items: "sort_items [Fin 0, Fin 0, Fin (- 1), Fin 1, Fin 1, Fin 1, Fin 1, Fin 1, Fin 1, Fin 0]
   = [(3, Fin 1), (4, Fin 1), (5, Fin 1), (6, Fin 1), (7, Fin 1), (8, Fin 1),
      (0, Fin 0), (1, Fin 0), (9, Fin 0), (2, Fin (- 1))]"
  by (simp add: sort_items_def js_sort_def upt10 js_sub_def)


lemma t10_word:
  "index2word toy10 ! fst (items10 ! 0) = ''c''" "index2word toy10 ! fst (items10 ! 1) = ''d''"
  "index2word toy10 ! fst (items10 ! 2) = ''e''" "index2word toy10 ! fst (items10 ! 3) = ''f''"
  "index2word toy10 ! fst (items10 ! 4) = ''g''" "index2word toy10 ! fst (items10 ! 5) = ''h''"
  "index2word toy10 ! fst (items10 ! 6) = null_word" "index2word toy10 ! fst (items10 ! 7) = ''a''"
  "index2word toy10 ! fst (items10 ! 8) = ''i''" "index2word toy10 ! fst (items10 ! 9) = ''b''"
  by (simp_all add: t10_sel items10_def)

lemma t10_lookup: "rank_lookup_of toy10 items10 = [''b'' \<mapsto> 9]"
proof -
  have l: "length items10 = 10" by (simp add: items10_def)
  show ?thesis
    unfolding rank_lookup_of_def l upt10 using t10_word
    by (simp add: t10_sel null_word_def js_in_short)
qed

lemma t10_watched: "watched_ranks toy10 [''b'' \<mapsto> 9] [1] = Inr [9]"
  by (simp add: watched_ranks_def t10_sel vocab_idx_def toy10_def)

lemma dec1: "n < 10 \<Longrightarrow> decimal n = [n]"
  by (subst decimal.simps) simp

lemma t10_uniq: "uniq_fast ([0..<10] @ [9]) = [0, 1, 2, 3, 4, 5, 6, 7, 8, 9::nat]"
  unfolding upt10 by (simp add: uniq_fast_def)

lemma t10_ranks: "ranks_to_show_of toy10 items10 [1] [9] = Inr [0, 1, 2, 3, 4, 5, 6, 8, 9]"
proof -
  have l: "length items10 = 10" by (simp add: items10_def)
  have f: "filter (\<lambda>r. fst (items10 ! r) \<notin> set [1])
             (filter (\<lambda>r. \<not> js_in (index2word toy10 ! fst (items10 ! r)) (queries_ignored toy10))
                [0, 1, 2, 3, 4, 5, 6, 7, 8, 9]) = [0, 1, 2, 3, 4, 5, 6, 8, 9]"
    by (simp add: t10_sel items10_def js_in_short null_word_def)
  have s: "sort_default [0, 1, 2, 3, 4, 5, 6, 8, 9] = [0, 1, 2, 3, 4, 5, 6, 8, 9]"
    by (simp add: sort_default_def js_sort_def dec1)
  show ?thesis
    unfolding ranks_to_show_of_def Let_def t10_uniq l f s by simp
qed


lemma t10_items': "sort_items [Fin 0, Fin 0, Fin (- 1), Fin 1, Fin 1, Fin 1, Fin 1, Fin 1, Fin 1, Fin 0] = items10"
  unfolding items10_def by (rule t10_items)

lemma t10_qo: "qo_map toy10 (qi_key toy10) = Some qo10"
  by (simp add: toy10_def qo10_def)

lemma t10_step_new:
  assumes "qo (index2word toy10 ! fst (items10 ! r)) = None"
  shows "record_rank toy10 items10 (qo, out) r =
     (qo(index2word toy10 ! fst (items10 ! r) \<mapsto> rec10 (index2word toy10 ! fst (items10 ! r)) r),
      out @ [index2word toy10 ! fst (items10 ! r)])"
  using assms by (simp add: record_rank_step rec10_def update_history_None t10_sel(7))

lemma t10_step_c:
  "record_rank toy10 items10 (qo10, []) 0 = (qo10(''c'' \<mapsto> rec10 ''c'' 0), [''c''])"
  by (simp add: record_rank_step t10_word qo10_def rec10_def update_history_def t10_sel(7))

lemma qo10_other: "w \<noteq> ''c'' \<Longrightarrow> qo10 w = None"
  by (simp add: qo10_def)

lemma t10_loop_from:
  assumes o: "\<And>w. w \<noteq> ''c'' \<Longrightarrow> qo0 w = None"
    and c: "record_rank toy10 items10 (qo0, []) 0 = (qo0(''c'' \<mapsto> rc), [''c''])"
  shows "foldl (record_rank toy10 items10) (qo0, []) [0, 1, 2, 3, 4, 5, 6, 8, 9] =
     (qo0(''c'' \<mapsto> rc, ''d'' \<mapsto> rec10 ''d'' 1, ''e'' \<mapsto> rec10 ''e'' 2,
           ''f'' \<mapsto> rec10 ''f'' 3, ''g'' \<mapsto> rec10 ''g'' 4, ''h'' \<mapsto> rec10 ''h'' 5,
           null_word \<mapsto> rec10 null_word 6, ''i'' \<mapsto> rec10 ''i'' 8, ''b'' \<mapsto> rec10 ''b'' 9),
      [''c'', ''d'', ''e'', ''f'', ''g'', ''h'', null_word, ''i'', ''b''])"
proof -
  have w: "index2word toy10 ! fst (items10 ! 1) = ''d''" "index2word toy10 ! fst (items10 ! 2) = ''e''"
    "index2word toy10 ! fst (items10 ! 3) = ''f''" "index2word toy10 ! fst (items10 ! 4) = ''g''"
    "index2word toy10 ! fst (items10 ! 5) = ''h''" "index2word toy10 ! fst (items10 ! 6) = null_word"
    "index2word toy10 ! fst (items10 ! 8) = ''i''" "index2word toy10 ! fst (items10 ! 9) = ''b''"
    using t10_word by simp_all
  have s1: "record_rank toy10 items10 (qo0(''c'' \<mapsto> rc), [''c'']) 1
      = (qo0(''c'' \<mapsto> rc, ''d'' \<mapsto> rec10 ''d'' 1), [''c'', ''d''])"
    using w by (subst t10_step_new) (simp_all add: o null_word_def)
  have s2: "record_rank toy10 items10 (qo0(''c'' \<mapsto> rc, ''d'' \<mapsto> rec10 ''d'' 1), [''c'', ''d'']) 2
      = (qo0(''c'' \<mapsto> rc, ''d'' \<mapsto> rec10 ''d'' 1, ''e'' \<mapsto> rec10 ''e'' 2), [''c'', ''d'', ''e''])"
    using w by (subst t10_step_new) (simp_all add: o null_word_def)
  have s3: "record_rank toy10 items10 (qo0(''c'' \<mapsto> rc, ''d'' \<mapsto> rec10 ''d'' 1, ''e'' \<mapsto> rec10 ''e'' 2), [''c'', ''d'', ''e'']) 3
      = (qo0(''c'' \<mapsto> rc, ''d'' \<mapsto> rec10 ''d'' 1, ''e'' \<mapsto> rec10 ''e'' 2,
           ''f'' \<mapsto> rec10 ''f'' 3), [''c'', ''d'', ''e'', ''f''])"
    using w by (subst t10_step_new) (simp_all add: o null_word_def)
  have s4: "record_rank toy10 items10 (qo0(''c'' \<mapsto> rc, ''d'' \<mapsto> rec10 ''d'' 1, ''e'' \<mapsto> rec10 ''e'' 2,
           ''f'' \<mapsto> rec10 ''f'' 3), [''c'', ''d'', ''e'', ''f'']) 4
      = (qo0(''c'' \<mapsto> rc, ''d'' \<mapsto> rec10 ''d'' 1, ''e'' \<mapsto> rec10 ''e'' 2,
           ''f'' \<mapsto> rec10 ''f'' 3, ''g'' \<mapsto> rec10 ''g'' 4), [''c'', ''d'', ''e'', ''f'', ''g''])"
    using w by (subst t10_step_new) (simp_all add: o null_word_def)
  have s5: "record_rank toy10 items10 (qo0(''c'' \<mapsto> rc, ''d'' \<mapsto> rec10 ''d'' 1, ''e'' \<mapsto> rec10 ''e'' 2,
           ''f'' \<mapsto> rec10 ''f'' 3, ''g'' \<mapsto> rec10 ''g'' 4), [''c'', ''d'', ''e'', ''f'', ''g'']) 5
      = (qo0(''c'' \<mapsto> rc, ''d'' \<mapsto> rec10 ''d'' 1, ''e'' \<mapsto> rec10 ''e'' 2,
           ''f'' \<mapsto> rec10 ''f'' 3, ''g'' \<mapsto> rec10 ''g'' 4, ''h'' \<mapsto> rec10 ''h'' 5),
         [''c'', ''d'', ''e'', ''f'', ''g'', ''h''])"
    using w by (subst t10_step_new) (simp_all add: o null_word_def)
  have s6: "record_rank toy10 items10 (qo0(''c'' \<mapsto> rc, ''d'' \<mapsto> rec10 ''d'' 1, ''e'' \<mapsto> rec10 ''e'' 2,
           ''f'' \<mapsto> rec10 ''f'' 3, ''g'' \<mapsto> rec10 ''g'' 4, ''h'' \<mapsto> rec10 ''h'' 5),
         [''c'', ''d'', ''e'', ''f'', ''g'', ''h'']) 6
      = (qo0(''c'' \<mapsto> rc, ''d'' \<mapsto> rec10 ''d'' 1, ''e'' \<mapsto> rec10 ''e'' 2,
           ''f'' \<mapsto> rec10 ''f'' 3, ''g'' \<mapsto> rec10 ''g'' 4, ''h'' \<mapsto> rec10 ''h'' 5,
           null_word \<mapsto> rec10 null_word 6),
         [''c'', ''d'', ''e'', ''f'', ''g'', ''h'', null_word])"
    using w by (subst t10_step_new) (simp_all add: o null_word_def)
  have s8: "record_rank toy10 items10 (qo0(''c'' \<mapsto> rc, ''d'' \<mapsto> rec10 ''d'' 1, ''e'' \<mapsto> rec10 ''e'' 2,
           ''f'' \<mapsto> rec10 ''f'' 3, ''g'' \<mapsto> rec10 ''g'' 4, ''h'' \<mapsto> rec10 ''h'' 5,
           null_word \<mapsto> rec10 null_word 6),
         [''c'', ''d'', ''e'', ''f'', ''g'', ''h'', null_word]) 8
      = (qo0(''c'' \<mapsto> rc, ''d'' \<mapsto> rec10 ''d'' 1, ''e'' \<mapsto> rec10 ''e'' 2,
           ''f'' \<mapsto> rec10 ''f'' 3, ''g'' \<mapsto> rec10 ''g'' 4, ''h'' \<mapsto> rec10 ''h'' 5,
           null_word \<mapsto> rec10 null_word 6, ''i'' \<mapsto> rec10 ''i'' 8),
         [''c'', ''d'', ''e'', ''f'', ''g'', ''h'', null_word, ''i''])"
    using w by (subst t10_step_new) (simp_all add: o null_word_def)
  have s9: "record_rank toy10 items10 (qo0(''c'' \<mapsto> rc, ''d'' \<mapsto> rec10 ''d'' 1, ''e'' \<mapsto> rec10 ''e'' 2,
           ''f'' \<mapsto> rec10 ''f'' 3, ''g'' \<mapsto> rec10 ''g'' 4, ''h'' \<mapsto> rec10 ''h'' 5,
           null_word \<mapsto> rec10 null_word 6, ''i'' \<mapsto> rec10 ''i'' 8),
         [''c'', ''d'', ''e'', ''f'', ''g'', ''h'', null_word, ''i'']) 9
      = (qo0(''c'' \<mapsto> rc, ''d'' \<mapsto> rec10 ''d'' 1, ''e'' \<mapsto> rec10 ''e'' 2,
           ''f'' \<mapsto> rec10 ''f'' 3, ''g'' \<mapsto> rec10 ''g'' 4, ''h'' \<mapsto> rec10 ''h'' 5,
           null_word \<mapsto> rec10 null_word 6, ''i'' \<mapsto> rec10 ''i'' 8, ''b'' \<mapsto> rec10 ''b'' 9),
         [''c'', ''d'', ''e'', ''f'', ''g'', ''h'', null_word, ''i'', ''b''])"
    using w by (subst t10_step_new) (simp_all add: o null_word_def)
  show ?thesis
    by (simp only: foldl.simps c s1 s2 s3 s4 s5 s6 s8 s9)
qed

lemma t10_loop:
  "foldl (record_rank toy10 items10) (qo10, []) [0, 1, 2, 3, 4, 5, 6, 8, 9] =
     (qo10(''c'' \<mapsto> rec10 ''c'' 0, ''d'' \<mapsto> rec10 ''d'' 1, ''e'' \<mapsto> rec10 ''e'' 2,
           ''f'' \<mapsto> rec10 ''f'' 3, ''g'' \<mapsto> rec10 ''g'' 4, ''h'' \<mapsto> rec10 ''h'' 5,
           null_word \<mapsto> rec10 null_word 6, ''i'' \<mapsto> rec10 ''i'' 8, ''b'' \<mapsto> rec10 ''b'' 9),
      [''c'', ''d'', ''e'', ''f'', ''g'', ''h'', null_word, ''i'', ''b''])"
  by (rule t10_loop_from[OF qo10_other t10_step_c])

lemma t10_filter:
  "List.map_filter Q10 [''c'', ''d'', ''e'', ''f'', ''g'', ''h'', null_word, ''i'', ''b''] = out10"
  by (simp add: Q10_def out10_def null_word_def)

lemma t10_sorted: "js_sort rank_after out10 = out10"
  by (simp add: out10_def js_sort_def rank_after_def rec10_def)

lemma t10_result:
  "compute_query_result toy10 =
     Inr (toy10\<lparr>qo_map := (qo_map toy10)(qi_key toy10 \<mapsto> Q10), query_out_records := out10,
                qi_vec := [Fin 1]\<rparr>)"
proof -
  have q: "length (query_in toy10) \<noteq> 0" by (simp add: t10_sel)
  have r: "[0, 1, 2, 3, 4, 5, 6, 8, 9::nat] \<noteq> []" by simp
  show ?thesis
    unfolding compute_query_result_def
    by (simp only: q if_False t10_terms sum.case prod.case t10_sel(1) t10_norm Let_def t10_scores
        t10_items' t10_lookup t10_watched t10_ranks r t10_qo option.case t10_loop
        Q10_def[symmetric] t10_filter t10_sorted)
qed

lemma z_terms: "query_terms toy10_zero = Inr ([Fin 0], [1, 1])"
  by (simp add: toy10_zero_def toy10_def query_terms_def add_query_term_def strip_minus_def
      vocab_idx_def get_row_def add_vec_def sub_vec_def num_at_def js_sub_def)

lemma z_norm: "normalize 1 [Fin 0] = [NaN]"
  by (simp add: normalize_def dot_def div_vec_def num_at_def inf_of_def)

lemma z_sel: "hidden_size (config toy10_zero) = 1" "vocab_size toy10_zero = 10"
  "syn0 toy10_zero = [[Fin 0], [Fin 1], [Fin (- 1)], [Fin 1], [Fin 1], [Fin 1], [Fin 1], [Fin 1],
                  [Fin 1], [Fin 0]]"
  by (simp_all add: toy10_zero_def toy10_def)

lemma z_score:
  "score_of toy10_zero [NaN] [1, 1] 0 = Inr (Fin 0)" "score_of toy10_zero [NaN] [1, 1] 1 = Inr (Fin 0)"
  "score_of toy10_zero [NaN] [1, 1] 2 = Inr NaN" "score_of toy10_zero [NaN] [1, 1] 3 = Inr NaN"
  "score_of toy10_zero [NaN] [1, 1] 4 = Inr NaN" "score_of toy10_zero [NaN] [1, 1] 5 = Inr NaN"
  "score_of toy10_zero [NaN] [1, 1] 6 = Inr NaN" "score_of toy10_zero [NaN] [1, 1] 7 = Inr NaN"
  "score_of toy10_zero [NaN] [1, 1] 8 = Inr NaN" "score_of toy10_zero [NaN] [1, 1] 9 = Inr (Fin 0)"
  by (simp_all add: score_of_def z_sel get_row_def dot_def num_at_def Let_def)

lemma z_scores: "all_scores toy10_zero [NaN] [1, 1] =
    Inr [Fin 0, Fin 0, NaN, NaN, NaN, NaN, NaN, NaN, NaN, Fin 0]"
  unfolding all_scores_def z_sel upt10 using z_score by simp



lemma t10_hist:
  "\<forall>qo w rec. qo_map toy10 (qi_key toy10) = Some qo \<longrightarrow> qo w = Some rec
     \<longrightarrow> history_ok (instances toy10) rec"
  unfolding t10_qo by (auto simp: qo10_def history_ok_def split: if_splits)

text \<open>
  \<open>init_model\<close> sets the instance count to 0 and keeps the records of all queries; the
  functions of the query do not read \<open>qo_map\<close> before the loop over the ranks.
\<close>

lemma init_model_frame:
  "instances (init_model w m) = 0" "qo_map (init_model w m) = qo_map m"
  by (simp_all add: init_model_def Let_def)

lemma init_model_toy10_late: "init_model w10 toy10_late = toy10_reinit"
  by (simp add: init_model_def toy10_late_def toy10_reinit_def toy10_def w10_def upt10 Let_def)

lemma add_query_term_qo: "add_query_term (m\<lparr>qo_map := X\<rparr>) = add_query_term m"
  by (intro ext) (simp add: add_query_term_def Let_def split: prod.splits sum.splits)

lemma score_of_qo: "score_of (m\<lparr>qo_map := X\<rparr>) = score_of m"
  by (intro ext) (simp add: score_of_def Let_def split: sum.splits)

lemma qo_frame:
  "query_terms (m\<lparr>qo_map := X\<rparr>) = query_terms m"
  "all_scores (m\<lparr>qo_map := X\<rparr>) = all_scores m"
  "rank_lookup_of (m\<lparr>qo_map := X\<rparr>) = rank_lookup_of m"
  "watched_ranks (m\<lparr>qo_map := X\<rparr>) = watched_ranks m"
  "ranks_to_show_of (m\<lparr>qo_map := X\<rparr>) = ranks_to_show_of m"
  "record_rank (m\<lparr>qo_map := X\<rparr>) = record_rank m"
proof -
  show "query_terms (m\<lparr>qo_map := X\<rparr>) = query_terms m"
    by (simp add: query_terms_def add_query_term_qo)
  show "all_scores (m\<lparr>qo_map := X\<rparr>) = all_scores m"
    by (intro ext) (simp add: all_scores_def score_of_qo)
  show "rank_lookup_of (m\<lparr>qo_map := X\<rparr>) = rank_lookup_of m"
    by (intro ext) (simp add: rank_lookup_of_def Let_def)
  show "watched_ranks (m\<lparr>qo_map := X\<rparr>) = watched_ranks m"
    by (intro ext) (simp add: watched_ranks_def cong: option.case_cong if_cong)
  show "ranks_to_show_of (m\<lparr>qo_map := X\<rparr>) = ranks_to_show_of m"
    by (intro ext) (simp add: ranks_to_show_of_def Let_def)
  show "record_rank (m\<lparr>qo_map := X\<rparr>) = record_rank m"
    by (intro ext) (simp add: record_rank_def Let_def cong: option.case_cong)
qed

lemma r10_sel: "hidden_size (config toy10_reinit) = 1" "query_in toy10_reinit = [''a'']"
  "qi_key toy10_reinit = ''a''" "qo_map toy10_reinit ''a'' = Some [''c'' \<mapsto> rec_late]"
  by (simp_all add: toy10_reinit_def t10_sel)

lemma r10_eval:
  "query_terms toy10_reinit = Inr ([Fin 1], [1])"
  "all_scores toy10_reinit [Fin 1] [1] =
    Inr [Fin 0, Fin 0, Fin (- 1), Fin 1, Fin 1, Fin 1, Fin 1, Fin 1, Fin 1, Fin 0]"
  "rank_lookup_of toy10_reinit items10 = [''b'' \<mapsto> 9]"
  "watched_ranks toy10_reinit [''b'' \<mapsto> 9] [1] = Inr [9]"
  "ranks_to_show_of toy10_reinit items10 [1] [9] = Inr [0, 1, 2, 3, 4, 5, 6, 8, 9]"
  unfolding toy10_reinit_def qo_frame
  by (rule t10_terms t10_scores t10_lookup t10_watched t10_ranks)+

lemma r10_step_c:
  "record_rank toy10 items10 ([''c'' \<mapsto> rec_late], []) 0
     = ([''c'' \<mapsto> rec_late](''c'' \<mapsto> rec_reinit), [''c''])"
  by (simp add: record_rank_step t10_word rec_late_def rec_reinit_def update_history_def t10_sel(7))

lemma r10_loop:
  "foldl (record_rank toy10_reinit items10) ([''c'' \<mapsto> rec_late], []) [0, 1, 2, 3, 4, 5, 6, 8, 9]
     = (Q10r, [''c'', ''d'', ''e'', ''f'', ''g'', ''h'', null_word, ''i'', ''b''])"
  unfolding toy10_reinit_def qo_frame Q10r_def
  by (rule t10_loop_from[OF _ r10_step_c]) simp

lemma r10_filter:
  "List.map_filter Q10r [''c'', ''d'', ''e'', ''f'', ''g'', ''h'', null_word, ''i'', ''b''] = out10r"
  by (simp add: Q10r_def out10r_def null_word_def)

lemma r10_sorted: "js_sort rank_after out10r = out10r"
  by (simp add: out10r_def js_sort_def rank_after_def rec10_def rec_reinit_def)

lemma r10_result:
  "compute_query_result toy10_reinit =
     Inr (toy10_reinit\<lparr>qo_map := (qo_map toy10_reinit)(''a'' \<mapsto> Q10r), query_out_records := out10r,
                qi_vec := [Fin 1]\<rparr>)"
proof -
  have q: "length [''a''] \<noteq> 0" by simp
  have r: "[0, 1, 2, 3, 4, 5, 6, 8, 9::nat] \<noteq> []" by simp
  show ?thesis
    unfolding compute_query_result_def
    by (simp only: r10_sel q if_False r10_eval sum.case prod.case t10_norm Let_def
        t10_items' r option.case r10_loop r10_filter r10_sorted)
qed

subsection \<open>The claims about the query\<close>

text \<open>
  Claim C2 fails on the code. The normalisation divides every entry of the query vector by
  the square root of its squared norm, with no test of that norm: for the query \<open>a -a\<close>
  the vector is zero, its norm is 0, and \<open>0 / 0\<close> makes every entry \<open>NaN\<close>. The score of
  every word that is not a term of the query and whose own vector is not zero is then
  \<open>NaN\<close>, not 0.
\<close>

theorem zero_norm_query_nan:
  "query_in toy10_zero = [''a'', ''-a'']
   \<and> query_terms toy10_zero = Inr ([Fin 0], [1, 1])
   \<and> dot (hidden_size (config toy10_zero)) [Fin 0] [Fin 0] = Fin 0
   \<and> normalize (hidden_size (config toy10_zero)) [Fin 0] = [NaN]
   \<and> all_scores toy10_zero (normalize (hidden_size (config toy10_zero)) [Fin 0]) [1, 1]
       = Inr [Fin 0, Fin 0, NaN, NaN, NaN, NaN, NaN, NaN, NaN, Fin 0]"
  using z_terms z_norm z_scores
  by (simp add: z_sel dot_def num_at_def) (simp add: toy10_zero_def)



text \<open>
  Claim C7, as amended. Let every record of the current query have a history with strictly
  increasing iteration numbers, none beyond the current instance count; this holds from
  the empty \<open>qo_map\<close> on, for as long as the instance count is not set back. When
  \<open>compute_query_result\<close> returns, the same holds of every record of the query, and the
  history of every record given out ends with the entry of its rank at the instance count.
  An update at the iteration of the last entry replaces that entry, so two updates at the
  same instance count leave one entry with the later rank; an update at another iteration
  appends an entry.
\<close>

theorem rank_history_increasing:
  assumes "compute_query_result m = Inr m1"
    and "\<forall>qo w rec. qo_map m (qi_key m) = Some qo \<longrightarrow> qo w = Some rec
           \<longrightarrow> history_ok (instances m) rec"
  shows "(\<forall>qo1 w rec. qo_map m1 (qi_key m) = Some qo1 \<longrightarrow> qo1 w = Some rec
           \<longrightarrow> history_ok (instances m) rec)
       \<and> (\<forall>rec\<in>set (query_out_records m1). history_ok (instances m) rec
            \<and> (\<exists>h r. rank_history rec = Some h \<and> rank rec = Some r \<and> h \<noteq> []
                  \<and> last h = \<lparr>hist_rank = r, iteration = instances m\<rparr>))
       \<and> (h \<noteq> [] \<and> iteration (last h) = it
            \<longrightarrow> update_history (Some h) r it = butlast h @ [\<lparr>hist_rank = r, iteration = it\<rparr>])
       \<and> (h = [] \<or> iteration (last h) \<noteq> it
            \<longrightarrow> update_history (Some h) r it = h @ [\<lparr>hist_rank = r, iteration = it\<rparr>])
       \<and> update_history None r it = [\<lparr>hist_rank = r, iteration = it\<rparr>]
       \<and> update_history (Some (update_history rh r1 it)) r2 it = update_history rh r2 it
       \<and> (history_ok it rec0
            \<longrightarrow> history_ok it (rec0\<lparr>rank_history := Some (update_history (rank_history rec0) r it)\<rparr>))"
proof -
  have A: "(\<forall>qo1 w rec. qo_map m1 (qi_key m) = Some qo1 \<longrightarrow> qo1 w = Some rec
           \<longrightarrow> history_ok (instances m) rec)
       \<and> (\<forall>rec\<in>set (query_out_records m1). history_ok (instances m) rec
            \<and> (\<exists>h r. rank_history rec = Some h \<and> rank rec = Some r \<and> h \<noteq> []
                  \<and> last h = \<lparr>hist_rank = r, iteration = instances m\<rparr>))"
  proof (cases "query_in m = []")
    case True
    then have "m1 = m\<lparr>query_out_records := []\<rparr>"
      using assms(1) by (simp add: compute_query_result_def)
    then show ?thesis using assms(2) by simp
  next
    case False
    obtain qv0 qset scores where
      recs: "\<forall>rec\<in>set (query_out_records m1). \<exists>r qo1.
          r < length (sort_items scores)
        \<and> fst (sort_items scores ! r) \<notin> set qset
        \<and> \<not> js_in (index2word m ! fst (sort_items scores ! r)) (queries_ignored m)
        \<and> qo_map m1 (qi_key m) = Some qo1
        \<and> qo1 (index2word m ! fst (sort_items scores ! r)) = Some rec
        \<and> fresh_rec (instances m) r rec
        \<and> ((\<forall>qo w rec0. qo_map m (qi_key m) = Some qo \<longrightarrow> qo w = Some rec0 \<longrightarrow> query rec0 = w)
             \<longrightarrow> query rec = index2word m ! fst (sort_items scores ! r))"
      and hist: "(\<forall>qo w rec0. qo_map m (qi_key m) = Some qo \<longrightarrow> qo w = Some rec0
                \<longrightarrow> history_ok (instances m) rec0)
         \<longrightarrow> (\<forall>qo1 w rec. qo_map m1 (qi_key m) = Some qo1 \<longrightarrow> qo1 w = Some rec
                \<longrightarrow> history_ok (instances m) rec)"
      using query_result_records[OF False assms(1)] by blast
    have H: "\<forall>qo1 w rec. qo_map m1 (qi_key m) = Some qo1 \<longrightarrow> qo1 w = Some rec
                \<longrightarrow> history_ok (instances m) rec"
      using hist assms(2) by blast
    have "\<forall>rec\<in>set (query_out_records m1). history_ok (instances m) rec
            \<and> (\<exists>h r. rank_history rec = Some h \<and> rank rec = Some r \<and> h \<noteq> []
                  \<and> last h = \<lparr>hist_rank = r, iteration = instances m\<rparr>)"
    proof
      fix rec assume "rec \<in> set (query_out_records m1)"
      then obtain r qo1 where "qo_map m1 (qi_key m) = Some qo1"
        "qo1 (index2word m ! fst (sort_items scores ! r)) = Some rec"
        "fresh_rec (instances m) r rec" using recs by blast
      then show "history_ok (instances m) rec
            \<and> (\<exists>h r. rank_history rec = Some h \<and> rank rec = Some r \<and> h \<noteq> []
                  \<and> last h = \<lparr>hist_rank = r, iteration = instances m\<rparr>)"
        using H by (auto simp: fresh_rec_def split: option.splits)
    qed
    then show ?thesis using H by blast
  qed
  have B: "h \<noteq> [] \<and> iteration (last h) = it
            \<longrightarrow> update_history (Some h) r it = butlast h @ [\<lparr>hist_rank = r, iteration = it\<rparr>]"
    using update_history_same[of h it r] by blast
  have C: "h = [] \<or> iteration (last h) \<noteq> it
            \<longrightarrow> update_history (Some h) r it = h @ [\<lparr>hist_rank = r, iteration = it\<rparr>]"
    using update_history_other[of h it r] by blast
  have D: "history_ok it rec0
            \<longrightarrow> history_ok it (rec0\<lparr>rank_history := Some (update_history (rank_history rec0) r it)\<rparr>)"
    using update_history_ok[where rh = "rank_history rec0" and it = it and r = r]
    by (simp add: history_ok_def)
  show ?thesis
    by (intro conjI A[THEN conjunct1] A[THEN conjunct2] B C update_history_None
        update_history_twice D)
qed

theorem rank_history_increasing_witness:
  "(\<exists>m1 qo1. compute_query_result toy10 = Inr m1
        \<and> qo_map toy10 (qi_key toy10) = Some qo10
        \<and> rank_history (the (qo10 ''c'')) = Some [\<lparr>hist_rank = 5, iteration = 0\<rparr>]
        \<and> qo_map m1 (qi_key toy10) = Some qo1
        \<and> map_option rank_history (qo1 ''c'') = Some (Some [\<lparr>hist_rank = 0, iteration = 0\<rparr>])
        \<and> map_option rank_history (qo1 ''d'') = Some (Some [\<lparr>hist_rank = 1, iteration = 0\<rparr>])
        \<and> list_all (history_ok (instances toy10)) (query_out_records m1))
   \<and> update_history (Some [\<lparr>hist_rank = 5, iteration = 0\<rparr>]) 2 7
        = [\<lparr>hist_rank = 5, iteration = 0\<rparr>, \<lparr>hist_rank = 2, iteration = 7\<rparr>]"
proof -
  let ?m1 = "toy10\<lparr>qo_map := (qo_map toy10)(qi_key toy10 \<mapsto> Q10), query_out_records := out10,
                qi_vec := [Fin 1]\<rparr>"
  note T = rank_history_increasing[OF t10_result t10_hist,
      where h = "[\<lparr>hist_rank = 5, iteration = 0\<rparr>]" and it = 7 and r = 2]
  have h: "\<forall>rec\<in>set (query_out_records ?m1). history_ok (instances toy10) rec"
    using T[THEN conjunct2, THEN conjunct1] by blast
  have u: "update_history (Some [\<lparr>hist_rank = 5, iteration = 0\<rparr>]) 2 7
        = [\<lparr>hist_rank = 5, iteration = 0\<rparr>, \<lparr>hist_rank = 2, iteration = 7\<rparr>]"
    using T[THEN conjunct2, THEN conjunct2, THEN conjunct2, THEN conjunct1] by simp
  have q: "qo_map ?m1 (qi_key toy10) = Some Q10" by simp
  have c: "map_option rank_history (Q10 ''c'') = Some (Some [\<lparr>hist_rank = 0, iteration = 0\<rparr>])"
    "map_option rank_history (Q10 ''d'') = Some (Some [\<lparr>hist_rank = 1, iteration = 0\<rparr>])"
    "rank_history (the (qo10 ''c'')) = Some [\<lparr>hist_rank = 5, iteration = 0\<rparr>]"
    by (simp_all add: Q10_def rec10_def qo10_def null_word_def)
  have l: "list_all (history_ok (instances toy10)) (query_out_records ?m1)"
    using h by (simp add: list_all_iff)
  show ?thesis by (intro conjI exI[of _ ?m1] exI[of _ Q10] t10_result t10_qo q c l u)
qed

text \<open>
  Claim C7 as stated fails after \<open>init_model\<close> has been run again. In the state
  \<open>toy10_late\<close> the record of \<open>c\<close> has the history \<open>[(0, 3)]\<close> at instance count 3.
  \<open>init_model\<close> sets the count to 0 and keeps the record; the next call of
  \<open>compute_query_result\<close> finds the last iteration 3 different from 0 and appends the
  entry \<open>(0, 0)\<close>, so the iterations of the history are 3, 0.
\<close>

theorem rank_history_reinit_counterexample:
  "qo_map toy10_late (qi_key toy10_late) = Some [''c'' \<mapsto> rec_late]
   \<and> instances toy10_late = 3
   \<and> history_ok (instances toy10_late) rec_late
   \<and> instances (init_model w10 toy10_late) = 0
   \<and> qo_map (init_model w10 toy10_late) = qo_map toy10_late
   \<and> (\<exists>m1 qo1 rec. compute_query_result (init_model w10 toy10_late) = Inr m1
         \<and> qo_map m1 (qi_key toy10_late) = Some qo1
         \<and> qo1 ''c'' = Some rec
         \<and> rec \<in> set (query_out_records m1)
         \<and> rank_history rec = Some [\<lparr>hist_rank = 0, iteration = 3\<rparr>,
                                      \<lparr>hist_rank = 0, iteration = 0\<rparr>]
         \<and> \<not> sorted_wrt (<) (map iteration [\<lparr>hist_rank = 0, iteration = 3\<rparr>,
                                                 \<lparr>hist_rank = 0, iteration = 0\<rparr>])
         \<and> \<not> history_ok (instances (init_model w10 toy10_late)) rec)"
proof -
  let ?m1 = "toy10_reinit\<lparr>qo_map := (qo_map toy10_reinit)(''a'' \<mapsto> Q10r),
                query_out_records := out10r, qi_vec := [Fin 1]\<rparr>"
  have a: "qo_map toy10_late (qi_key toy10_late) = Some [''c'' \<mapsto> rec_late]"
    "instances toy10_late = 3" "history_ok (instances toy10_late) rec_late"
    by (simp_all add: toy10_late_def t10_sel history_ok_def rec_late_def)
  have k: "qi_key toy10_late = ''a''" by (simp add: toy10_late_def t10_sel)
  have b: "compute_query_result (init_model w10 toy10_late) = Inr ?m1"
    unfolding init_model_toy10_late by (rule r10_result)
  have c: "qo_map ?m1 (qi_key toy10_late) = Some Q10r" unfolding k by simp
  have d: "Q10r ''c'' = Some rec_reinit" by (simp add: Q10r_def null_word_def)
  have e: "rec_reinit \<in> set (query_out_records ?m1)" by (simp add: out10r_def)
  have f: "rank_history rec_reinit = Some [\<lparr>hist_rank = 0, iteration = 3\<rparr>,
                                      \<lparr>hist_rank = 0, iteration = 0\<rparr>]"
    by (simp add: rec_reinit_def)
  have g: "\<not> sorted_wrt (<) (map iteration [\<lparr>hist_rank = 0, iteration = 3\<rparr>,
                                                 \<lparr>hist_rank = 0, iteration = 0\<rparr>])"
    by simp
  have h: "\<not> history_ok (instances (init_model w10 toy10_late)) rec_reinit"
    by (simp add: history_ok_def rec_reinit_def)
  have x: "\<exists>m1 qo1 rec. compute_query_result (init_model w10 toy10_late) = Inr m1
         \<and> qo_map m1 (qi_key toy10_late) = Some qo1
         \<and> qo1 ''c'' = Some rec
         \<and> rec \<in> set (query_out_records m1)
         \<and> rank_history rec = Some [\<lparr>hist_rank = 0, iteration = 3\<rparr>,
                                      \<lparr>hist_rank = 0, iteration = 0\<rparr>]
         \<and> \<not> sorted_wrt (<) (map iteration [\<lparr>hist_rank = 0, iteration = 3\<rparr>,
                                                 \<lparr>hist_rank = 0, iteration = 0\<rparr>])
         \<and> \<not> history_ok (instances (init_model w10 toy10_late)) rec"
    apply (rule exI[of _ ?m1], rule exI[of _ Q10r], rule exI[of _ rec_reinit])
    apply (intro conjI b c d e f g h)
    done
  show ?thesis
    by (intro conjI a init_model_frame x)
qed

end
